theory Spec2Isabelle
  imports Main "HOL-Library.Word"
begin

unbundle bit_operations_syntax

section \<open>Shared types (pkg/types)\<close>

text \<open>
  Go strings and byte slices are sequences of bytes.  Keys and values are byte lists; node
  identifiers and consistency levels are strings.  A timestamp is a signed 64-bit integer
  (\<open>int64\<close>): a 64-bit word, compared through \<open>sint\<close>.
\<close>

type_synonym byte = "8 word"
type_synonym bytes = "byte list"
type_synonym int64 = "64 word"

text \<open>
  Errors are values.  The sentinel errors of \<open>storage/engine.go\<close> and of Go's \<open>io\<close>
  package are constructors; \<open>Wrapped msg e\<close> is \<open>fmt.Errorf("msg: %w", e)\<close>, \<open>WrappedAt o e\<close>
  is \<open>fmt.Errorf("error at offset %d: %w", o, e)\<close>; the errors that the ring and the
  coordinator create with \<open>fmt.Errorf\<close> have a constructor each; \<open>Panic\<close> is a run-time
  panic.
\<close>

datatype error =
    ErrKeyNotFound
  | ErrKeyDeleted
  | ErrStorageFull
  | ErrCorruptData
  | ErrStorageClosed
  | EOF
  | ErrUnexpectedEOF
  | Wrapped string error
  | WrappedAt nat error
  | ErrNoNodes
  | ErrQuorumNotMet int int
  | ErrCoordKeyNotFound
  | Panic string

text \<open>\<open>type ConsistencyLevel string\<close> with its three named constants.\<close>

type_synonym ConsistencyLevel = string

definition ConsistencyOne :: ConsistencyLevel where
  "ConsistencyOne = ''one''"

definition ConsistencyQuorum :: ConsistencyLevel where
  "ConsistencyQuorum = ''quorum''"

definition ConsistencyAll :: ConsistencyLevel where
  "ConsistencyAll = ''all''"

text \<open>\<open>KeyValueEntry\<close>; the vector clock field \<open>Version\<close> is never assigned by the code
  modelled here and is left out.\<close>

record KeyValueEntry =
  Key :: bytes
  Value :: bytes
  Timestamp :: int64
  IsDeleted :: bool

section \<open>Configuration (internal/config)\<close>

text \<open>The fields of \<open>Config\<close> that the coordinator reads.  Go's \<open>int\<close> is modelled as
  \<open>int\<close>: the three quorum numbers are only returned and compared.\<close>

record Config =
  NodeID :: string
  ReplicationFactor :: int
  ReadQuorum :: int
  WriteQuorum :: int

section \<open>Quorum resolution (replication/coordinator.go, replication/quorum.go)\<close>

text \<open>\<open>Coordinator.getWriteQuorum\<close> and \<open>Coordinator.getReadQuorum\<close>: a switch on the level
  with the quorum value as the default branch.\<close>

definition getWriteQuorum :: "Config \<Rightarrow> ConsistencyLevel \<Rightarrow> int" where
  "getWriteQuorum cfg consistency =
     (if consistency = ConsistencyOne then 1
      else if consistency = ConsistencyAll then ReplicationFactor cfg
      else WriteQuorum cfg)"

definition getReadQuorum :: "Config \<Rightarrow> ConsistencyLevel \<Rightarrow> int" where
  "getReadQuorum cfg consistency =
     (if consistency = ConsistencyOne then 1
      else if consistency = ConsistencyAll then ReplicationFactor cfg
      else ReadQuorum cfg)"

text \<open>\<open>QuorumManager\<close> and its two requirement functions.\<close>

record QuorumManager =
  replicationFactor :: int
  readQuorum :: int
  writeQuorum :: int

definition NewQuorumManager :: "int \<Rightarrow> int \<Rightarrow> int \<Rightarrow> QuorumManager" where
  "NewQuorumManager n r w = \<lparr>replicationFactor = n, readQuorum = r, writeQuorum = w\<rparr>"

definition getWriteRequirement :: "QuorumManager \<Rightarrow> ConsistencyLevel \<Rightarrow> int" where
  "getWriteRequirement qm consistency =
     (if consistency = ConsistencyOne then 1
      else if consistency = ConsistencyAll then replicationFactor qm
      else writeQuorum qm)"

definition getReadRequirement :: "QuorumManager \<Rightarrow> ConsistencyLevel \<Rightarrow> int" where
  "getReadRequirement qm consistency =
     (if consistency = ConsistencyOne then 1
      else if consistency = ConsistencyAll then replicationFactor qm
      else readQuorum qm)"

section \<open>The in-memory index (storage/index.go)\<close>

text \<open>\<open>IndexEntry\<close>.  \<open>Offset\<close> is a position in the data file (a natural number: a file never
  reaches \<open>2^63\<close> bytes); \<open>Size\<close> is the \<open>int32\<close> value length.\<close>

record IndexEntry =
  Offset :: nat
  Size :: "32 word"
  ETimestamp :: int64
  EIsDeleted :: bool

text \<open>\<open>Index\<close>: the map and the two statistics counters (\<open>int64\<close>, modelled as \<open>int\<close>; they
  move by one per operation).\<close>

record Index =
  entries :: "bytes \<rightharpoonup> IndexEntry"
  active :: int
  deleted :: int

definition NewIndex :: Index where
  "NewIndex = \<lparr>entries = Map.empty, active = 0, deleted = 0\<rparr>"

definition Index_Get :: "Index \<Rightarrow> bytes \<Rightarrow> IndexEntry option" where
  "Index_Get idx key = entries idx key"

text \<open>\<open>Index.Put\<close>: the counters are adjusted by the two branches of the source
  (\<open>exists && existing.IsDeleted\<close>, then \<open>!exists\<close>), then the entry is replaced.\<close>

definition Index_Put :: "Index \<Rightarrow> bytes \<Rightarrow> nat \<Rightarrow> 32 word \<Rightarrow> int64 \<Rightarrow> Index" where
  "Index_Put idx key offset sz timestamp =
     (let idx1 =
        (case entries idx key of
           Some existing \<Rightarrow>
             if EIsDeleted existing then idx\<lparr>deleted := deleted idx - 1\<rparr> else idx
         | None \<Rightarrow> idx\<lparr>active := active idx + 1\<rparr>)
      in idx1\<lparr>entries := (entries idx1)(key \<mapsto>
           \<lparr>Offset = offset, Size = sz, ETimestamp = timestamp, EIsDeleted = False\<rparr>)\<rparr>)"

text \<open>\<open>Index.Delete\<close> returns the boolean of the source together with the new index.  A new
  tombstone entry has the zero values of Go for \<open>Offset\<close> and \<open>Size\<close>.\<close>

definition Index_Delete :: "Index \<Rightarrow> bytes \<Rightarrow> int64 \<Rightarrow> bool \<times> Index" where
  "Index_Delete idx key timestamp =
     (case entries idx key of
        None \<Rightarrow>
          (False, idx\<lparr>entries := (entries idx)(key \<mapsto>
                     \<lparr>Offset = 0, Size = 0, ETimestamp = timestamp, EIsDeleted = True\<rparr>),
                   deleted := deleted idx + 1\<rparr>)
      | Some entry \<Rightarrow>
          if \<not> EIsDeleted entry then
            (True, idx\<lparr>entries := (entries idx)(key \<mapsto>
                      entry\<lparr>EIsDeleted := True, ETimestamp := timestamp\<rparr>),
                    active := active idx - 1,
                    deleted := deleted idx + 1\<rparr>)
          else (False, idx))"

definition Index_Has :: "Index \<Rightarrow> bytes \<Rightarrow> bool" where
  "Index_Has idx key =
     (case entries idx key of None \<Rightarrow> False | Some entry \<Rightarrow> \<not> EIsDeleted entry)"

text \<open>\<open>Index.Keys\<close> first allocates \<open>make([]string, 0, idx.stats.active)\<close>, which panics when
  the counter is negative.  Then it ranges over a Go map, whose iteration order is
  unspecified: the order is the parameter \<open>ord\<close>, a list of the keys of the map.\<close>

definition Index_Keys :: "bytes list \<Rightarrow> Index \<Rightarrow> error + bytes list" where
  "Index_Keys ord idx =
     (if active idx < 0 then Inl (Panic ''makeslice: cap out of range'')
      else Inr (filter (\<lambda>key. case entries idx key of None \<Rightarrow> False
                              | Some entry \<Rightarrow> \<not> EIsDeleted entry) ord))"

definition Index_Count :: "Index \<Rightarrow> int" where
  "Index_Count idx = active idx"

definition Index_DeletedCount :: "Index \<Rightarrow> int" where
  "Index_DeletedCount idx = deleted idx"

definition Index_Clear :: "Index \<Rightarrow> Index" where
  "Index_Clear idx = idx\<lparr>entries := Map.empty, active := 0, deleted := 0\<rparr>"

text \<open>The index operations of claim C10 and the states they reach from a fresh index.\<close>

datatype IndexOp =
    IPut bytes nat "32 word" int64
  | IDelete bytes int64
  | IClear

fun index_step :: "Index \<Rightarrow> IndexOp \<Rightarrow> Index" where
  "index_step idx (IPut key offset sz timestamp) = Index_Put idx key offset sz timestamp"
| "index_step idx (IDelete key timestamp) = snd (Index_Delete idx key timestamp)"
| "index_step idx IClear = Index_Clear idx"

definition index_run :: "IndexOp list \<Rightarrow> Index" where
  "index_run ops = foldl index_step NewIndex ops"

text \<open>The keys whose entry is live, and those whose entry is a tombstone.\<close>

definition live_keys :: "Index \<Rightarrow> bytes set" where
  "live_keys idx = {key. \<exists>e. entries idx key = Some e \<and> \<not> EIsDeleted e}"

definition tombstone_keys :: "Index \<Rightarrow> bytes set" where
  "tombstone_keys idx = {key. \<exists>e. entries idx key = Some e \<and> EIsDeleted e}"

section \<open>The placement ring (ring/hash_ring.go)\<close>

text \<open>\<open>VNode\<close> and \<open>HashRing\<close>.  The field \<open>NodeID\<close> of a virtual node is \<open>VNodeID\<close> here
  (the configuration has a field of the same name).\<close>

record VNode =
  Hash :: "64 word"
  VNodeID :: string
  VNodeIdx :: int

record HashRing =
  vnodes :: "VNode list"
  nodeVNodes :: "string \<rightharpoonup> 64 word list"
  virtualCount :: int

text \<open>Go's \<open>sort.Search(n, f)\<close>: the binary search of the standard library, whose loop is
  \<open>for i < j { h := int(uint(i+j) >> 1); if !f(h) { i = h + 1 } else { j = h } }\<close>.\<close>

function Search_loop :: "(nat \<Rightarrow> bool) \<Rightarrow> nat \<Rightarrow> nat \<Rightarrow> nat" where
  "Search_loop f i j =
     (if i < j then
        (let h = (i + j) div 2 in
         if \<not> f h then Search_loop f (h + 1) j else Search_loop f i h)
      else i)"
  by pat_completeness auto
termination
  by (relation "measure (\<lambda>(f, i, j). j - i)") auto

declare Search_loop.simps [simp del]

definition sort_Search :: "nat \<Rightarrow> (nat \<Rightarrow> bool) \<Rightarrow> nat" where
  "sort_Search n f = Search_loop f 0 n"

text \<open>
  \<open>HashRing.GetNodes\<close>.  The hash function (MurmurHash3 of an external library) is the
  parameter \<open>hashf\<close>.  The loop \<open>for i := 0; i < len(r.vnodes) && len(nodes) < n; i++\<close>
  carries the slice \<open>nodes\<close> and the set \<open>seen\<close>.  A negative capacity makes
  \<open>make([]string, 0, n)\<close> panic.
\<close>

function GetNodes_loop ::
  "VNode list \<Rightarrow> nat \<Rightarrow> int \<Rightarrow> nat \<Rightarrow> string list \<Rightarrow> string set \<Rightarrow> string list" where
  "GetNodes_loop vs startIdx n i nodes seen =
     (if i < length vs \<and> int (length nodes) < n then
        (let idx = (startIdx + i) mod length vs;
             nodeID = VNodeID (vs ! idx)
         in if nodeID \<notin> seen
            then GetNodes_loop vs startIdx n (i + 1) (nodes @ [nodeID]) (insert nodeID seen)
            else GetNodes_loop vs startIdx n (i + 1) nodes seen)
      else nodes)"
  by pat_completeness auto
termination
  by (relation "measure (\<lambda>(vs, startIdx, n, i, nodes, seen). length vs - i)") auto

declare GetNodes_loop.simps [simp del]

definition GetNodes :: "(bytes \<Rightarrow> 64 word) \<Rightarrow> HashRing \<Rightarrow> bytes \<Rightarrow> int \<Rightarrow> error + string list" where
  "GetNodes hashf r key n =
     (if length (vnodes r) = 0 then Inl ErrNoNodes
      else
        (let h = hashf key;
             startIdx = sort_Search (length (vnodes r)) (\<lambda>i. Hash (vnodes r ! i) \<ge> h);
             startIdx = (if startIdx \<ge> length (vnodes r) then 0 else startIdx)
         in if n < 0 then Inl (Panic ''makeslice: cap out of range'')
            else Inr (GetNodes_loop (vnodes r) startIdx n 0 [] {})))"

text \<open>
  The preference list in the words of the specification: the start position is the first
  token whose hash is at least the hash of the key (index 0 when there is none); from there
  the token list is walked forward with wrap-around and the first occurrence of every node
  identifier is kept.
\<close>

definition ring_start :: "VNode list \<Rightarrow> 64 word \<Rightarrow> nat" where
  "ring_start vs h =
     (let k = length (takeWhile (\<lambda>v. Hash v < h) vs) in if k < length vs then k else 0)"

fun first_occ :: "'a set \<Rightarrow> 'a list \<Rightarrow> 'a list" where
  "first_occ seen [] = []"
| "first_occ seen (x # xs) =
     (if x \<in> seen then first_occ seen xs else x # first_occ (insert x seen) xs)"

definition walk_distinct :: "VNode list \<Rightarrow> 64 word \<Rightarrow> string list" where
  "walk_distinct vs h = first_occ {} (map VNodeID (rotate (ring_start vs h) vs))"

section \<open>The log store (storage/bitcask.go)\<close>

subsection \<open>Big-endian integers and the checksum\<close>

text \<open>\<open>binary.BigEndian.PutUint32\<close>, \<open>Uint32\<close>, \<open>PutUint64\<close> and \<open>Uint64\<close> of the Go standard
  library, on slices of four and eight bytes.\<close>

definition PutUint32 :: "32 word \<Rightarrow> bytes" where
  "PutUint32 v = [ucast (drop_bit 24 v), ucast (drop_bit 16 v), ucast (drop_bit 8 v), ucast v]"

definition Uint32 :: "bytes \<Rightarrow> 32 word" where
  "Uint32 b = ucast (b ! 3) OR push_bit 8 (ucast (b ! 2)) OR push_bit 16 (ucast (b ! 1))
               OR push_bit 24 (ucast (b ! 0))"

definition PutUint64 :: "64 word \<Rightarrow> bytes" where
  "PutUint64 v = [ucast (drop_bit 56 v), ucast (drop_bit 48 v), ucast (drop_bit 40 v),
                  ucast (drop_bit 32 v), ucast (drop_bit 24 v), ucast (drop_bit 16 v),
                  ucast (drop_bit 8 v), ucast v]"

definition Uint64 :: "bytes \<Rightarrow> 64 word" where
  "Uint64 b = ucast (b ! 7) OR push_bit 8 (ucast (b ! 6)) OR push_bit 16 (ucast (b ! 5))
               OR push_bit 24 (ucast (b ! 4)) OR push_bit 32 (ucast (b ! 3))
               OR push_bit 40 (ucast (b ! 2)) OR push_bit 48 (ucast (b ! 1))
               OR push_bit 56 (ucast (b ! 0))"

text \<open>\<open>crc32.ChecksumIEEE\<close> of the Go standard library: the reflected CRC-32 with polynomial
  \<open>0xEDB88320\<close>, initial value and final complement \<open>0xFFFFFFFF\<close>, one bit at a time.\<close>

definition crc32_shift :: "32 word \<Rightarrow> 32 word" where
  "crc32_shift c = (if bit c 0 then drop_bit 1 c XOR 0xEDB88320 else drop_bit 1 c)"

definition crc32_update :: "32 word \<Rightarrow> byte \<Rightarrow> 32 word" where
  "crc32_update c b =
     crc32_shift (crc32_shift (crc32_shift (crc32_shift (crc32_shift (crc32_shift
       (crc32_shift (crc32_shift (c XOR ucast b))))))))"

definition ChecksumIEEE :: "bytes \<Rightarrow> 32 word" where
  "ChecksumIEEE data = NOT (foldl crc32_update 0xFFFFFFFF data)"

text \<open>\<open>io.ReadFull(reader, buf)\<close> on a reader holding the bytes \<open>rest\<close>, for a buffer of \<open>n\<close>
  bytes: the bytes read and the bytes left in the reader.  An empty buffer reads nothing and
  succeeds; no byte at all is \<open>io.EOF\<close>, too few bytes \<open>io.ErrUnexpectedEOF\<close>.\<close>

definition ReadFull :: "bytes \<Rightarrow> nat \<Rightarrow> error + (bytes \<times> bytes)" where
  "ReadFull rest n =
     (if n = 0 then Inr ([], rest)
      else if rest = [] then Inl EOF
      else if length rest < n then Inl ErrUnexpectedEOF
      else Inr (take n rest, drop n rest))"

subsection \<open>Records of the data file\<close>

definition headerSize :: nat where
  "headerSize = 4 + 8 + 4 + 4 + 1"

text \<open>\<open>Entry\<close> of \<open>storage/engine.go\<close>.\<close>

record Entry =
  EntryKey :: bytes
  EntryValue :: bytes
  EntryTimestamp :: int64
  EntryIsDeleted :: bool
  EntryOffset :: nat
  EntrySize :: "32 word"

text \<open>\<open>Bitcask.readEntry(reader, offset)\<close>: \<open>reader\<close> holds the bytes of the file from the
  position of the record on.  The result is the entry and the number of bytes of the
  record.\<close>

definition readEntry :: "bytes \<Rightarrow> nat \<Rightarrow> error + (Entry \<times> nat)" where
  "readEntry reader offset =
     (case ReadFull reader headerSize of
        Inl err \<Rightarrow> Inl err
      | Inr (header, reader1) \<Rightarrow>
          (let storedCRC = Uint32 (take 4 header);
               timestamp = Uint64 (take 8 (drop 4 header));
               keyLen = Uint32 (take 4 (drop 12 header));
               valueLen = Uint32 (take 4 (drop 16 header));
               isDeleted = (header ! 20 = 1)
           in case ReadFull reader1 (unat keyLen) of
                Inl err \<Rightarrow> Inl (Wrapped ''failed to read key'' err)
              | Inr (key, reader2) \<Rightarrow>
                  (case ReadFull reader2 (unat valueLen) of
                     Inl err \<Rightarrow> Inl (Wrapped ''failed to read value'' err)
                   | Inr (val, reader3) \<Rightarrow>
                       (let data = drop 4 header @ key @ val;
                            calculatedCRC = ChecksumIEEE data
                        in if storedCRC \<noteq> calculatedCRC then Inl ErrCorruptData
                           else Inr (\<lparr>EntryKey = key, EntryValue = val,
                                      EntryTimestamp = timestamp, EntryIsDeleted = isDeleted,
                                      EntryOffset = offset, EntrySize = valueLen\<rparr>,
                                     headerSize + unat keyLen + unat valueLen)))))"

text \<open>The bytes that \<open>writeEntry\<close> (and the loop of \<open>Compact\<close>) hands to the writer: the
  header, whose first four bytes are the checksum of the rest of the header, of the key and
  of the value, then the key and the value.  The two lengths are converted to \<open>uint32\<close>.\<close>

definition recordBytes :: "bytes \<Rightarrow> bytes \<Rightarrow> int64 \<Rightarrow> bool \<Rightarrow> bytes" where
  "recordBytes key val timestamp isDeleted =
     (let keyLen = (of_nat (length key) :: 32 word);
          valueLen = (of_nat (length val) :: 32 word);
          header4 = PutUint64 timestamp @ PutUint32 keyLen @ PutUint32 valueLen
                    @ [if isDeleted then 1 else 0];
          crc = ChecksumIEEE (header4 @ key @ val)
      in PutUint32 crc @ header4 @ key @ val)"

subsection \<open>The store\<close>

text \<open>
  \<open>Bitcask\<close>.  \<open>dataFile\<close> is the content of \<open>data.db\<close> followed by the bytes that are still in
  the buffered writer: every path that reads the file (\<open>Get\<close>, \<open>Compact\<close>) flushes the writer
  first, and \<open>rebuildIndex\<close> runs before the first write.  \<open>position\<close> is the \<open>int64\<close> write
  position, a natural number here.  Failures of the operating system (open, seek, write,
  flush, sync, rename) are not modelled: these calls succeed.  The two statistics counters
  are \<open>uint64\<close>.
\<close>

record Bitcask =
  dataFile :: bytes
  index :: Index
  position :: nat
  closed :: bool
  syncWrite :: bool
  totalReads :: "64 word"
  totalWrites :: "64 word"

text \<open>The loop of \<open>rebuildIndex\<close>: it reads the file from offset 0; \<open>io.EOF\<close> at the start of
  a record ends it, any other error is returned with the offset.\<close>

function rebuildIndex_loop :: "bytes \<Rightarrow> nat \<Rightarrow> Index \<Rightarrow> error + Index" where
  "rebuildIndex_loop file offset idx =
     (case readEntry (drop offset file) offset of
        Inl err \<Rightarrow> if err = EOF then Inr idx else Inl (WrappedAt offset err)
      | Inr (entry, bytesRead) \<Rightarrow>
          rebuildIndex_loop file (offset + bytesRead)
            (if EntryIsDeleted entry
             then snd (Index_Delete idx (EntryKey entry) (EntryTimestamp entry))
             else Index_Put idx (EntryKey entry) offset (EntrySize entry)
                    (EntryTimestamp entry)))"
  by pat_completeness auto
termination
proof (relation "measure (\<lambda>(file, offset, idx). length file - offset)")
  show "wf (measure (\<lambda>(file, offset, idx). length file - offset))" by simp
next
  fix fl :: bytes and offset :: nat and idx :: Index and x2 :: "Entry \<times> nat"
    and entry :: Entry and bytesRead :: nat
  assume r: "readEntry (drop offset fl) offset = Inr x2" and x: "(entry, bytesRead) = x2"
  from r obtain header reader1 where
    h: "ReadFull (drop offset fl) headerSize = Inr (header, reader1)"
    by (cases "ReadFull (drop offset fl) headerSize") (auto simp add: readEntry_def)
  from h have a: "offset < length fl"
    by (auto simp add: ReadFull_def headerSize_def split: if_splits)
  from r h x have b: "headerSize \<le> bytesRead"
    by (auto simp add: readEntry_def Let_def split: sum.splits if_splits)
  from a b show "((fl, offset + bytesRead,
               if EntryIsDeleted entry
               then snd (Index_Delete idx (EntryKey entry) (EntryTimestamp entry))
               else Index_Put idx (EntryKey entry) offset (EntrySize entry)
                      (EntryTimestamp entry)),
              fl, offset, idx)
             \<in> measure (\<lambda>(file, offset, idx). length file - offset)"
    by (simp add: headerSize_def)
qed

declare rebuildIndex_loop.simps [simp del]

definition rebuildIndex :: "Bitcask \<Rightarrow> error + Bitcask" where
  "rebuildIndex bc =
     (case rebuildIndex_loop (dataFile bc) 0 (index bc) of
        Inl err \<Rightarrow> Inl err
      | Inr idx \<Rightarrow> Inr (bc\<lparr>index := idx\<rparr>))"

text \<open>\<open>NewBitcask\<close> on a data directory whose \<open>data.db\<close> holds \<open>file\<close> (empty when the file is
  created).\<close>

definition NewBitcask :: "bytes \<Rightarrow> bool \<Rightarrow> error + Bitcask" where
  "NewBitcask file syncW =
     (let bc = \<lparr>dataFile = file, index = NewIndex, position = length file, closed = False,
                syncWrite = syncW, totalReads = 0, totalWrites = 0\<rparr>
      in if length file > 0 then
           (case rebuildIndex bc of
              Inl err \<Rightarrow> Inl (Wrapped ''failed to rebuild index'' err)
            | Inr bc' \<Rightarrow> Inr bc')
         else Inr bc)"

text \<open>\<open>writeEntry\<close>: the offset of the record and the store after the append.\<close>

definition writeEntry :: "Bitcask \<Rightarrow> bytes \<Rightarrow> bytes \<Rightarrow> int64 \<Rightarrow> bool \<Rightarrow> nat \<times> Bitcask" where
  "writeEntry bc key val timestamp isDeleted =
     (let offset = position bc;
          rec = recordBytes key val timestamp isDeleted;
          totalSize = length rec
      in (offset, bc\<lparr>dataFile := dataFile bc @ rec, position := position bc + totalSize\<rparr>))"

text \<open>\<open>Bitcask.Get\<close>: the result and the store (the read counter moves).\<close>

definition Bitcask_Get :: "Bitcask \<Rightarrow> bytes \<Rightarrow> (error + bytes \<times> int64) \<times> Bitcask" where
  "Bitcask_Get bc key =
     (if closed bc then (Inl ErrStorageClosed, bc)
      else
        (let bc1 = bc\<lparr>totalReads := totalReads bc + 1\<rparr> in
         case Index_Get (index bc1) key of
           None \<Rightarrow> (Inl ErrKeyNotFound, bc1)
         | Some entry \<Rightarrow>
             if EIsDeleted entry then (Inl ErrKeyDeleted, bc1)
             else
               (case readEntry (drop (Offset entry) (dataFile bc1)) (Offset entry) of
                  Inl err \<Rightarrow> (Inl (Wrapped ''failed to read entry'' err), bc1)
                | Inr (readE, n) \<Rightarrow> (Inr (EntryValue readE, EntryTimestamp readE), bc1))))"

text \<open>\<open>Bitcask.Put\<close> and \<open>Bitcask.Delete\<close>: the error (\<open>None\<close> is \<open>nil\<close>) and the store.\<close>

definition Bitcask_Put :: "Bitcask \<Rightarrow> bytes \<Rightarrow> bytes \<Rightarrow> int64 \<Rightarrow> error option \<times> Bitcask" where
  "Bitcask_Put bc key val timestamp =
     (if closed bc then (Some ErrStorageClosed, bc)
      else
        (let bc1 = bc\<lparr>totalWrites := totalWrites bc + 1\<rparr>;
             (offset, bc2) = writeEntry bc1 key val timestamp False
         in (None, bc2\<lparr>index := Index_Put (index bc2) key offset
                                  (of_nat (length val)) timestamp\<rparr>)))"

definition Bitcask_Delete :: "Bitcask \<Rightarrow> bytes \<Rightarrow> int64 \<Rightarrow> error option \<times> Bitcask" where
  "Bitcask_Delete bc key timestamp =
     (if closed bc then (Some ErrStorageClosed, bc)
      else
        (let bc1 = bc\<lparr>totalWrites := totalWrites bc + 1\<rparr>;
             (offset, bc2) = writeEntry bc1 key [] timestamp True
         in (None, bc2\<lparr>index := snd (Index_Delete (index bc2) key timestamp)\<rparr>)))"

definition Bitcask_Has :: "Bitcask \<Rightarrow> bytes \<Rightarrow> bool" where
  "Bitcask_Has bc key = (if closed bc then False else Index_Has (index bc) key)"

text \<open>\<open>Bitcask.Keys\<close>; \<open>nil\<close> on a closed store is the empty list, and a panic of \<open>Index.Keys\<close>
  goes through.\<close>

definition Bitcask_Keys :: "bytes list \<Rightarrow> Bitcask \<Rightarrow> error + bytes list" where
  "Bitcask_Keys ord bc = (if closed bc then Inr [] else Index_Keys ord (index bc))"

definition Bitcask_Count :: "Bitcask \<Rightarrow> int" where
  "Bitcask_Count bc = Index_Count (index bc)"

text \<open>
  \<open>Bitcask.Compact\<close>.  The loop ranges over \<open>bc.index.All()\<close>, a Go map: \<open>ord\<close> is the order in
  which the keys come.  The loop carries the content of the temporary file, the new index
  and the new position; a record that cannot be read aborts the compaction and leaves the
  store as it was.
\<close>

fun Compact_loop ::
  "Bitcask \<Rightarrow> bytes list \<Rightarrow> bytes \<Rightarrow> Index \<Rightarrow> nat \<Rightarrow> error + (bytes \<times> Index \<times> nat)" where
  "Compact_loop bc [] temp newIndex newPosition = Inr (temp, newIndex, newPosition)"
| "Compact_loop bc (key # keys) temp newIndex newPosition =
     (case entries (index bc) key of
        None \<Rightarrow> Compact_loop bc keys temp newIndex newPosition
      | Some entry \<Rightarrow>
          if EIsDeleted entry then Compact_loop bc keys temp newIndex newPosition
          else
            (case readEntry (drop (Offset entry) (dataFile bc)) (Offset entry) of
               Inl err \<Rightarrow> Inl (Wrapped ''failed to read entry'' err)
             | Inr (readE, n) \<Rightarrow>
                 (let rec = recordBytes key (EntryValue readE) (EntryTimestamp readE) False;
                      offset = newPosition;
                      totalSize = length rec
                  in Compact_loop bc keys (temp @ rec)
                       (Index_Put newIndex key offset (of_nat (length (EntryValue readE)))
                          (EntryTimestamp readE))
                       (newPosition + totalSize))))"

definition Bitcask_Compact :: "bytes list \<Rightarrow> Bitcask \<Rightarrow> error option \<times> Bitcask" where
  "Bitcask_Compact ord bc =
     (if closed bc then (Some ErrStorageClosed, bc)
      else
        (case Compact_loop bc ord [] NewIndex 0 of
           Inl err \<Rightarrow> (Some err, bc)
         | Inr (temp, newIndex, newPosition) \<Rightarrow>
             (None, bc\<lparr>dataFile := temp, index := newIndex, position := newPosition\<rparr>)))"

text \<open>The operations of the log round trip (claim C6) and a run of them on a store; the
  run stops at the first error.\<close>

datatype StoreOp =
    OpPut bytes bytes int64
  | OpDelete bytes int64

fun op_key :: "StoreOp \<Rightarrow> bytes" where
  "op_key (OpPut key val timestamp) = key"
| "op_key (OpDelete key timestamp) = key"

fun op_value :: "StoreOp \<Rightarrow> bytes" where
  "op_value (OpPut key val timestamp) = val"
| "op_value (OpDelete key timestamp) = []"

fun op_timestamp :: "StoreOp \<Rightarrow> int64" where
  "op_timestamp (OpPut key val timestamp) = timestamp"
| "op_timestamp (OpDelete key timestamp) = timestamp"

fun store_step :: "Bitcask \<Rightarrow> StoreOp \<Rightarrow> error option \<times> Bitcask" where
  "store_step bc (OpPut key val timestamp) = Bitcask_Put bc key val timestamp"
| "store_step bc (OpDelete key timestamp) = Bitcask_Delete bc key timestamp"

fun store_run :: "Bitcask \<Rightarrow> StoreOp list \<Rightarrow> error + Bitcask" where
  "store_run bc [] = Inr bc"
| "store_run bc (x # xs) =
     (case store_step bc x of
        (Some err, bc') \<Rightarrow> Inl err
      | (None, bc') \<Rightarrow> store_run bc' xs)"

text \<open>What the specification expects of \<open>get\<close> after a run: the value and timestamp of the
  most recent operation on the key, \<open>Tombstoned\<close> when that operation is a delete, \<open>NotFound\<close>
  when there is none.\<close>

definition expected_get :: "StoreOp list \<Rightarrow> bytes \<Rightarrow> error + bytes \<times> int64" where
  "expected_get ops key =
     (case find (\<lambda>x. op_key x = key) (rev ops) of
        None \<Rightarrow> Inl ErrKeyNotFound
      | Some (OpPut k val timestamp) \<Rightarrow> Inr (val, timestamp)
      | Some (OpDelete k timestamp) \<Rightarrow> Inl ErrKeyDeleted)"

text \<open>Auxiliary notions for the proofs about the store.  \<open>record_at file off e\<close>: reading
  the file at \<open>off\<close> with \<open>readEntry\<close> yields the entry \<open>e\<close>.  \<open>last_op ops key\<close>: the most
  recent operation of \<open>ops\<close> on \<open>key\<close>.\<close>

definition record_at :: "bytes \<Rightarrow> nat \<Rightarrow> Entry \<Rightarrow> bool" where
  "record_at file off e =
     (case readEntry (drop off file) off of Inl err \<Rightarrow> False | Inr (e', n) \<Rightarrow> e' = e)"

definition last_op :: "StoreOp list \<Rightarrow> bytes \<Rightarrow> StoreOp option" where
  "last_op ops key = find (\<lambda>x. op_key x = key) (rev ops)"

text \<open>The index entry of \<open>key\<close> reflects the operation \<open>lo\<close>.\<close>

fun key_tracks :: "Bitcask \<Rightarrow> bytes \<Rightarrow> StoreOp option \<Rightarrow> bool" where
  "key_tracks bc key None = (entries (index bc) key = None)"
| "key_tracks bc key (Some (OpPut k val timestamp)) =
     (case entries (index bc) key of
        None \<Rightarrow> False
      | Some e \<Rightarrow> \<not> EIsDeleted e \<and>
          record_at (dataFile bc) (Offset e)
            \<lparr>EntryKey = key, EntryValue = val, EntryTimestamp = timestamp,
             EntryIsDeleted = False, EntryOffset = Offset e,
             EntrySize = of_nat (length val)\<rparr>)"
| "key_tracks bc key (Some (OpDelete k timestamp)) =
     (case entries (index bc) key of None \<Rightarrow> False | Some e \<Rightarrow> EIsDeleted e)"

definition tracks :: "Bitcask \<Rightarrow> StoreOp list \<Rightarrow> bool" where
  "tracks bc ops \<longleftrightarrow>
     \<not> closed bc \<and> position bc = length (dataFile bc)
     \<and> (\<forall>key. key_tracks bc key (last_op ops key))"

text \<open>The sizes that fit the 32-bit length fields of a record.\<close>

definition op_fits :: "StoreOp \<Rightarrow> bool" where
  "op_fits x \<longleftrightarrow> length (op_key x) < 2 ^ 32 \<and> length (op_value x) < 2 ^ 32"

text \<open>\<open>Bitcask.Close\<close> (flush and sync are not modelled; closing a closed store changes
  nothing).\<close>

definition Bitcask_Close :: "Bitcask \<Rightarrow> error option \<times> Bitcask" where
  "Bitcask_Close bc = (if closed bc then (None, bc) else (None, bc\<lparr>closed := True\<rparr>))"

text \<open>
  The states of a store that claim C7 ranges over: a store opened on an empty directory,
  then any sequence of puts and deletes (keys and values that fit the 32-bit length fields),
  gets, successful compactions (in any iteration order of the index), a close, and a reopen
  of the data file.  \<open>enumerates ord idx\<close>: the list \<open>ord\<close> is an order in which Go may range
  over the map of the index.
\<close>

definition enumerates :: "bytes list \<Rightarrow> Index \<Rightarrow> bool" where
  "enumerates ord idx \<longleftrightarrow> distinct ord \<and> set ord = dom (entries idx)"

inductive reachable :: "Bitcask \<Rightarrow> bool" where
  fresh: "NewBitcask [] sw = Inr bc \<Longrightarrow> reachable bc"
| put: "reachable bc \<Longrightarrow> length key < 2 ^ 32 \<Longrightarrow> length val < 2 ^ 32 \<Longrightarrow>
        Bitcask_Put bc key val timestamp = (None, bc') \<Longrightarrow> reachable bc'"
| delete: "reachable bc \<Longrightarrow> length key < 2 ^ 32 \<Longrightarrow>
        Bitcask_Delete bc key timestamp = (None, bc') \<Longrightarrow> reachable bc'"
| get: "reachable bc \<Longrightarrow> Bitcask_Get bc key = (res, bc') \<Longrightarrow> reachable bc'"
| compact: "reachable bc \<Longrightarrow> enumerates ord (index bc) \<Longrightarrow>
        Bitcask_Compact ord bc = (None, bc') \<Longrightarrow> reachable bc'"
| close: "reachable bc \<Longrightarrow> Bitcask_Close bc = (None, bc') \<Longrightarrow> reachable bc'"
| reopen: "reachable bc \<Longrightarrow> NewBitcask (dataFile bc) sw = Inr bc' \<Longrightarrow> reachable bc'"

text \<open>Auxiliary notions for the proofs about compaction.  \<open>index_ok file idx\<close>: every live
  entry of the index points at a record of the file that \<open>readEntry\<close> accepts and that
  carries the key of the entry.  \<open>compacted_entry bc temp key e'\<close>: the entry \<open>e'\<close> points at a
  record of \<open>temp\<close> that is not a tombstone and has the key, the value and the timestamp of
  the live record of \<open>key\<close> in the store \<open>bc\<close>.\<close>

definition index_ok :: "bytes \<Rightarrow> Index \<Rightarrow> bool" where
  "index_ok file idx \<longleftrightarrow>
     (\<forall>key e. entries idx key = Some e \<longrightarrow> \<not> EIsDeleted e \<longrightarrow>
        (\<exists>re. record_at file (Offset e) re \<and> EntryKey re = key))"

definition store_inv :: "Bitcask \<Rightarrow> bool" where
  "store_inv bc \<longleftrightarrow> position bc = length (dataFile bc) \<and> index_ok (dataFile bc) (index bc)"

definition compacted_entry :: "Bitcask \<Rightarrow> bytes \<Rightarrow> bytes \<Rightarrow> IndexEntry \<Rightarrow> bool" where
  "compacted_entry bc temp key e' \<longleftrightarrow>
     \<not> EIsDeleted e' \<and>
     (\<exists>e re re'. entries (index bc) key = Some e \<and> \<not> EIsDeleted e
        \<and> record_at (dataFile bc) (Offset e) re
        \<and> record_at temp (Offset e') re'
        \<and> EntryKey re' = key \<and> \<not> EntryIsDeleted re'
        \<and> EntryValue re' = EntryValue re
        \<and> EntryTimestamp re' = EntryTimestamp re)"

text \<open>
  The rewritten file of claim C7.  \<open>compacted_record bc key\<close> is the record, not a tombstone,
  of the value and the timestamp that \<open>Get\<close> returns for \<open>key\<close> in the store \<open>bc\<close>.
  \<open>scan_entries file offset\<close> reads the file from \<open>offset\<close> to its end as \<open>rebuildIndex\<close> does,
  record after record with \<open>readEntry\<close>, and returns the entries read.
\<close>

definition compacted_record :: "Bitcask \<Rightarrow> bytes \<Rightarrow> bytes" where
  "compacted_record bc key =
     (case fst (Bitcask_Get bc key) of
        Inl err \<Rightarrow> []
      | Inr (val, timestamp) \<Rightarrow> recordBytes key val timestamp False)"

function scan_entries :: "bytes \<Rightarrow> nat \<Rightarrow> error + Entry list" where
  "scan_entries file offset =
     (case readEntry (drop offset file) offset of
        Inl err \<Rightarrow> if err = EOF then Inr [] else Inl (WrappedAt offset err)
      | Inr (entry, bytesRead) \<Rightarrow>
          (case scan_entries file (offset + bytesRead) of
             Inl err \<Rightarrow> Inl err
           | Inr es \<Rightarrow> Inr (entry # es)))"
  by pat_completeness auto
termination
proof (relation "measure (\<lambda>(file, offset). length file - offset)")
  show "wf (measure (\<lambda>(file, offset). length file - offset))" by simp
next
  fix fl :: bytes and offset :: nat and x2 :: "Entry \<times> nat"
    and entry :: Entry and bytesRead :: nat
  assume r: "readEntry (drop offset fl) offset = Inr x2" and x: "(entry, bytesRead) = x2"
  from r obtain header reader1 where
    h: "ReadFull (drop offset fl) headerSize = Inr (header, reader1)"
    by (cases "ReadFull (drop offset fl) headerSize") (auto simp add: readEntry_def)
  from h have a: "offset < length fl"
    by (auto simp add: ReadFull_def headerSize_def split: if_splits)
  from r h x have b: "headerSize \<le> bytesRead"
    by (auto simp add: readEntry_def Let_def split: sum.splits if_splits)
  from a b show "((fl, offset + bytesRead), fl, offset)
             \<in> measure (\<lambda>(file, offset). length file - offset)"
    by (simp add: headerSize_def)
qed

declare scan_entries.simps [simp del]

text \<open>A small store for examples: opened on an empty directory, then \<open>Put("\x01", "\x02", 1)\<close>,
  \<open>Put("\x03", "\x04", 2)\<close> and \<open>Delete("\x03", 3)\<close>.\<close>

definition example_store :: Bitcask where
  "example_store =
     snd (Bitcask_Delete
       (snd (Bitcask_Put
         (snd (Bitcask_Put
           \<lparr>dataFile = [], index = NewIndex, position = 0, closed = False,
            syncWrite = False, totalReads = 0, totalWrites = 0\<rparr>
           [1] [2] 1))
         [3] [4] 2))
       [3] 3)"

text \<open>
  The premise of claim C3 on a data file: \<open>valid_prefix file target\<close> holds when reading
  records with \<open>readEntry\<close> from offset 0 succeeds record after record and arrives exactly at
  the offset \<open>target\<close>.
\<close>

function scan_to :: "bytes \<Rightarrow> nat \<Rightarrow> nat \<Rightarrow> bool" where
  "scan_to file offset target =
     (if offset = target then True
      else if target < offset then False
      else (case readEntry (drop offset file) offset of
              Inl err \<Rightarrow> False
            | Inr (entry, bytesRead) \<Rightarrow> scan_to file (offset + bytesRead) target))"
  by pat_completeness auto
termination
proof (relation "measure (\<lambda>(file, offset, target). target - offset)")
  show "wf (measure (\<lambda>(file, offset, target). target - offset))" by simp
next
  fix fl :: bytes and offset :: nat and target :: nat and x2 :: "Entry \<times> nat"
    and entry :: Entry and bytesRead :: nat
  assume ne: "offset \<noteq> target" and nl: "\<not> target < offset"
    and r: "readEntry (drop offset fl) offset = Inr x2" and x: "(entry, bytesRead) = x2"
  from r obtain header reader1 where
    h: "ReadFull (drop offset fl) headerSize = Inr (header, reader1)"
    by (cases "ReadFull (drop offset fl) headerSize") (auto simp add: readEntry_def)
  from r h x have b: "headerSize \<le> bytesRead"
    by (auto simp add: readEntry_def Let_def split: sum.splits if_splits)
  from ne nl b show "((fl, offset + bytesRead, target), fl, offset, target)
             \<in> measure (\<lambda>(file, offset, target). target - offset)"
    by (simp add: headerSize_def)
qed

declare scan_to.simps [simp del]

definition valid_prefix :: "bytes \<Rightarrow> nat \<Rightarrow> bool" where
  "valid_prefix file target = scan_to file 0 target"

text \<open>A data file for examples: the record of \<open>Put("\x01", "\x02", 1)\<close> followed by 21 zero
  bytes, a header whose stored checksum (0) is not the checksum of the rest.\<close>

definition torn_file :: bytes where
  "torn_file = recordBytes [1] [2] 1 False @ replicate 21 0"

section \<open>The coordinator (replication/coordinator.go)\<close>

text \<open>\<open>NodeState\<close> and \<open>Node\<close> of \<open>pkg/types\<close> (the fields \<open>LastSeen\<close> and \<open>TokenRing\<close> are not read by
  the coordinator).\<close>

datatype NodeState = NodeAlive | NodeSuspect | NodeDead

record Node =
  ID :: string
  Address :: string
  Port :: int
  State :: NodeState

text \<open>\<open>ReplicationRequest\<close>, the body of a \<open>POST /internal/replicate\<close>.\<close>

record ReplicationRequest =
  ReqEntry :: KeyValueEntry
  FromNode :: string
  IsHandoff :: bool

text \<open>
  \<open>Coordinator\<close>.  The storage engine is shared with the HTTP server, so it is not a field:
  every function takes the store and returns it.  What lies outside the node is the record
  \<open>Net\<close>: the hash function of the ring, the outcome of a replication request to a
  registered node (true when the request is answered with status 200) and the outcome of an
  internal read request on a URL (the decoded entry of a response with status 200, \<open>None\<close>
  for every failure: the connection, the status, the body or its decoding).  A function
  that sends replication requests returns the list of the requests sent, each with its
  target.
\<close>

record Coordinator =
  coord_config :: Config
  coord_ring :: HashRing
  coord_nodes :: "string \<rightharpoonup> Node"

record Net =
  hashf :: "bytes \<Rightarrow> 64 word"
  post_replicate :: "string \<Rightarrow> ReplicationRequest \<Rightarrow> bool"
  get_read :: "bytes \<Rightarrow> KeyValueEntry option"

type_synonym sent = "(string \<times> ReplicationRequest) list"

definition sendReplication ::
  "Net \<Rightarrow> Coordinator \<Rightarrow> string \<Rightarrow> KeyValueEntry \<Rightarrow> bool \<times> sent" where
  "sendReplication net c nodeID entry =
     (case coord_nodes c nodeID of
        None \<Rightarrow> (False, [])
      | Some node \<Rightarrow>
          (let req = \<lparr>ReqEntry = entry, FromNode = NodeID (coord_config c),
                      IsHandoff = False\<rparr>
           in (post_replicate net nodeID req, [(nodeID, req)])))"

text \<open>
  The URL of an internal read is
  \<open>fmt.Sprintf("http://%s:%d/internal/read?key=%s", node.Address, node.Port, key)\<close>: the key
  goes into it byte for byte, without escaping.  \<open>decimal\<close> and \<open>format_int\<close> are the verb
  \<open>%d\<close>; \<open>string_bytes\<close> gives the bytes of a string.
\<close>

function decimal :: "nat \<Rightarrow> string" where
  "decimal n =
     (if n < 10 then [''0123456789'' ! n]
      else decimal (n div 10) @ [''0123456789'' ! (n mod 10)])"
  by pat_completeness auto
termination
  by (relation "measure id") auto

declare decimal.simps [simp del]

definition format_int :: "int \<Rightarrow> string" where
  "format_int i = (if i < 0 then CHR ''-'' # decimal (nat (- i)) else decimal (nat i))"

definition string_bytes :: "string \<Rightarrow> bytes" where
  "string_bytes s = map of_char s"

definition read_url :: "Node \<Rightarrow> bytes \<Rightarrow> bytes" where
  "read_url node key =
     string_bytes (''http://'' @ Address node @ '':'' @ format_int (Port node)
                   @ ''/internal/read?key='') @ key"

text \<open>
  \<open>http.NewRequestWithContext\<close> parses the URL with \<open>url.Parse\<close> of the Go standard library.
  \<open>url.Parse\<close> cuts the URL at the first \<open>#\<close>; it refuses the part before it when
  \<open>stringContainsCTLByte\<close> finds an ASCII control byte there (a byte below \<open>0x20\<close>, or
  \<open>0x7f\<close>), and the part after it, the fragment, when \<open>unescape\<close> finds a \<open>%\<close> that two
  hexadecimal digits do not follow.  These are the two checks that the bytes of the key can
  fail: the query of a URL is not checked further.  Then \<open>fetchFromNode\<close> returns \<open>nil\<close> and
  no request leaves the node.  The checks of the host are left to \<open>get_read\<close>, which is
  \<open>None\<close> for a URL that no request can be made of.
\<close>

definition stringContainsCTLByte :: "bytes \<Rightarrow> bool" where
  "stringContainsCTLByte s = list_ex (\<lambda>b. b < 0x20 \<or> b = 0x7f) s"

definition ishex :: "byte \<Rightarrow> bool" where
  "ishex c = ((0x30 \<le> c \<and> c \<le> 0x39) \<or> (0x61 \<le> c \<and> c \<le> 0x66) \<or> (0x41 \<le> c \<and> c \<le> 0x46))"

fun bad_escape :: "bytes \<Rightarrow> bool" where
  "bad_escape [] = False"
| "bad_escape (c # s) =
     (if c = 0x25
      then (case s of
              h1 # h2 # rest \<Rightarrow> if ishex h1 \<and> ishex h2 then bad_escape rest else True
            | _ \<Rightarrow> True)
      else bad_escape s)"

definition url_refused :: "bytes \<Rightarrow> bool" where
  "url_refused url =
     (let u = takeWhile (\<lambda>b. b \<noteq> 0x23) url;
          frag = drop 1 (dropWhile (\<lambda>b. b \<noteq> 0x23) url)
      in stringContainsCTLByte u \<or> bad_escape frag)"

text \<open>\<open>fetchFromNode\<close>: \<open>nil\<close> for an unknown node, for a URL that is refused and for every
  failure of the request.\<close>

definition fetchFromNode ::
  "Net \<Rightarrow> Coordinator \<Rightarrow> string \<Rightarrow> bytes \<Rightarrow> KeyValueEntry option" where
  "fetchFromNode net c nodeID key =
     (case coord_nodes c nodeID of
        None \<Rightarrow> None
      | Some node \<Rightarrow>
          (let url = read_url node key
           in if url_refused url then None else get_read net url))"

text \<open>\<open>replicateToNodes\<close>: one goroutine per node; the local write and the remote requests do
  not depend on each other, so the nodes are taken in the order of the list.  The result is
  the map \<open>results\<close>, the store and the requests sent.\<close>

fun replicateToNodes ::
  "Net \<Rightarrow> Coordinator \<Rightarrow> Bitcask \<Rightarrow> string list \<Rightarrow> KeyValueEntry
   \<Rightarrow> (string \<rightharpoonup> bool) \<times> Bitcask \<times> sent" where
  "replicateToNodes net c st [] entry = (Map.empty, st, [])"
| "replicateToNodes net c st (nodeID # rest) entry =
     (let (success, st1, sent1) =
        (if nodeID = NodeID (coord_config c) then
           (let (err, st') = Bitcask_Put st (Key entry) (Value entry) (Timestamp entry)
            in (err = None, st', []))
         else
           (let (ok, m) = sendReplication net c nodeID entry in (ok, st, m)));
          (results, st2, sent2) = replicateToNodes net c st1 rest entry
      in (results(nodeID \<mapsto> success), st2, sent1 @ sent2))"

text \<open>\<open>readFromNodes\<close>: the slice \<open>responses\<close> has one slot per node of the list, filled by
  index, so its order is the order of the list whatever the order of arrival.\<close>

fun readFromNodes ::
  "Net \<Rightarrow> Coordinator \<Rightarrow> Bitcask \<Rightarrow> string list \<Rightarrow> bytes
   \<Rightarrow> KeyValueEntry option list \<times> Bitcask" where
  "readFromNodes net c st [] key = ([], st)"
| "readFromNodes net c st (nodeID # rest) key =
     (let (entry, st1) =
        (if nodeID = NodeID (coord_config c) then
           (case Bitcask_Get st key of
              (Inr (val, timestamp), st') \<Rightarrow>
                (Some \<lparr>Key = key, Value = val, Timestamp = timestamp, IsDeleted = False\<rparr>, st')
            | (Inl err, st') \<Rightarrow> (None, st'))
         else (fetchFromNode net c nodeID key, st));
          (responses, st2) = readFromNodes net c st1 rest key
      in (entry # responses, st2))"

text \<open>
  Go's \<open>sort.Slice(x, less)\<close> on a slice of at most 12 elements is the insertion sort
  \<open>for i := a + 1; i < b; i++ { for j := i; j > a && less(j, j-1); j-- { swap(j, j-1) } }\<close> of
  the standard library.  \<open>insert_left lt ys x\<close> moves \<open>x\<close> to the left into the sorted part
  \<open>ys\<close>, which is kept in reverse (its last element first).  (On longer slices the library
  uses another algorithm, with the same contract: a permutation ordered by \<open>less\<close>.)
\<close>

fun insert_left :: "('a \<Rightarrow> 'a \<Rightarrow> bool) \<Rightarrow> 'a list \<Rightarrow> 'a \<Rightarrow> 'a list" where
  "insert_left lt [] x = [x]"
| "insert_left lt (y # ys) x =
     (if lt x y then y # insert_left lt ys x else x # y # ys)"

definition sort_Slice :: "('a \<Rightarrow> 'a \<Rightarrow> bool) \<Rightarrow> 'a list \<Rightarrow> 'a list" where
  "sort_Slice lt xs = rev (foldl (insert_left lt) [] xs)"

text \<open>The errors of \<open>GetNodes\<close> are wrapped by the coordinator; a panic is not an error value
  and passes through.\<close>

definition wrap_error :: "string \<Rightarrow> error \<Rightarrow> error" where
  "wrap_error msg err = (case err of Panic p \<Rightarrow> Panic p | _ \<Rightarrow> Wrapped msg err)"

text \<open>\<open>Coordinator.Put\<close>; \<open>now\<close> is \<open>time.Now().UnixNano()\<close>.  The successes are counted over
  the map \<open>results\<close>, whose keys are the nodes of the preference list.\<close>

definition Coordinator_Put ::
  "Net \<Rightarrow> Coordinator \<Rightarrow> Bitcask \<Rightarrow> int64 \<Rightarrow> bytes \<Rightarrow> bytes \<Rightarrow> ConsistencyLevel
   \<Rightarrow> error option \<times> Bitcask \<times> sent" where
  "Coordinator_Put net c st now key val consistency =
     (let timestamp = now in
      case GetNodes (hashf net) (coord_ring c) key (ReplicationFactor (coord_config c)) of
        Inl err \<Rightarrow> (Some (wrap_error ''failed to get preference list'' err), st, [])
      | Inr preferenceList \<Rightarrow>
          (let requiredAcks = getWriteQuorum (coord_config c) consistency;
               entry = \<lparr>Key = key, Value = val, Timestamp = timestamp, IsDeleted = False\<rparr>;
               (results, st', sent) = replicateToNodes net c st preferenceList entry;
               successCount =
                 int (length (filter (\<lambda>n. results n = Some True) (remdups preferenceList)))
           in if successCount < requiredAcks
              then (Some (ErrQuorumNotMet successCount requiredAcks), st', sent)
              else (None, st', sent)))"

text \<open>The loop of \<open>Coordinator.Get\<close> that collects the responses that are not \<open>nil\<close>, in the
  order of the slice.\<close>

definition successfulResponses :: "KeyValueEntry option list \<Rightarrow> KeyValueEntry list" where
  "successfulResponses responses =
     concat (map (\<lambda>resp. case resp of None \<Rightarrow> [] | Some e \<Rightarrow> [e]) responses)"

text \<open>
  \<open>Coordinator.Get\<close>.  The third component of the result is the read repair that the
  function starts in a goroutine (\<open>go c.readRepair(..., preferenceList, latest)\<close>): the
  preference list and the latest entry.  Indexing an empty slice panics.
\<close>

definition Coordinator_Get ::
  "Net \<Rightarrow> Coordinator \<Rightarrow> Bitcask \<Rightarrow> bytes \<Rightarrow> ConsistencyLevel
   \<Rightarrow> (error + bytes \<times> int64) \<times> Bitcask \<times> (string list \<times> KeyValueEntry) option" where
  "Coordinator_Get net c st key consistency =
     (case GetNodes (hashf net) (coord_ring c) key (ReplicationFactor (coord_config c)) of
        Inl err \<Rightarrow> (Inl (wrap_error ''failed to get preference list'' err), st, None)
      | Inr preferenceList \<Rightarrow>
          (let requiredReads = getReadQuorum (coord_config c) consistency;
               (responses, st') = readFromNodes net c st preferenceList key;
               successful = successfulResponses responses
           in if int (length successful) < requiredReads
              then (Inl ErrCoordKeyNotFound, st', None)
              else
                (case sort_Slice (\<lambda>a b. sint (Timestamp b) < sint (Timestamp a))
                        successful of
                   [] \<Rightarrow> (Inl (Panic ''index out of range [0] with length 0''), st', None)
                 | latest # others \<Rightarrow>
                     (Inr (Value latest, Timestamp latest), st',
                      Some (preferenceList, latest)))))"

text \<open>\<open>Coordinator.readRepair\<close>: a sequential loop over the nodes; the store after it and the
  replication requests sent.  The errors of the local \<open>Put\<close> are ignored by the source.\<close>

fun readRepair ::
  "Net \<Rightarrow> Coordinator \<Rightarrow> Bitcask \<Rightarrow> string list \<Rightarrow> KeyValueEntry \<Rightarrow> Bitcask \<times> sent" where
  "readRepair net c st [] latest = (st, [])"
| "readRepair net c st (nodeID # rest) latest =
     (if nodeID = NodeID (coord_config c) then
        (let (res, st1) = Bitcask_Get st (Key latest);
             st2 = (case res of
                      Inl err \<Rightarrow>
                        snd (Bitcask_Put st1 (Key latest) (Value latest) (Timestamp latest))
                    | Inr (val, timestamp) \<Rightarrow>
                        if sint timestamp < sint (Timestamp latest) then
                          snd (Bitcask_Put st1 (Key latest) (Value latest) (Timestamp latest))
                        else if timestamp = Timestamp latest \<and> val \<noteq> Value latest then
                          snd (Bitcask_Put st1 (Key latest) (Value latest) (Timestamp latest))
                        else st1)
         in readRepair net c st2 rest latest)
      else
        (let (ok, m) = sendReplication net c nodeID latest;
             (st', sent) = readRepair net c st rest latest
         in (st', m @ sent)))"

text \<open>Auxiliary notions for the statements about reads.  \<open>first_max w es\<close>: the first entry
  of \<open>w # es\<close> that carries the greatest timestamp.  \<open>local_stale res latest\<close>: the condition
  under which \<open>readRepair\<close> rewrites the local copy, on the result \<open>res\<close> of the local \<open>Get\<close>.\<close>

fun first_max :: "KeyValueEntry \<Rightarrow> KeyValueEntry list \<Rightarrow> KeyValueEntry" where
  "first_max w [] = w"
| "first_max w (e # es) =
     first_max (if sint (Timestamp w) < sint (Timestamp e) then e else w) es"

definition local_stale :: "(error + bytes \<times> int64) \<Rightarrow> KeyValueEntry \<Rightarrow> bool" where
  "local_stale res latest =
     (case res of
        Inl err \<Rightarrow> True
      | Inr (val, timestamp) \<Rightarrow>
          sint timestamp < sint (Timestamp latest)
          \<or> (timestamp = Timestamp latest \<and> val \<noteq> Value latest))"

section \<open>The hinted handoff store (replication/handoff.go)\<close>

text \<open>\<open>HintedHandoff\<close> and \<open>HintedHandoffStore\<close>; times and durations are integers
  (nanoseconds).\<close>

record HintedHandoff =
  TargetNode :: string
  HintEntry :: KeyValueEntry
  CreatedAt :: int
  Attempts :: int

record HintedHandoffStore =
  hints :: "string \<rightharpoonup> HintedHandoff list"
  maxAge :: int
  maxSize :: int

definition NewHintedHandoffStore :: "int \<Rightarrow> int \<Rightarrow> HintedHandoffStore" where
  "NewHintedHandoffStore age sz = \<lparr>hints = Map.empty, maxAge = age, maxSize = sz\<rparr>"

text \<open>\<open>HintedHandoffStore.Store\<close>; \<open>now\<close> is \<open>time.Now()\<close>.  The slice expression \<open>hints[1:]\<close>
  panics on an empty slice.\<close>

definition HintedHandoffStore_Store ::
  "HintedHandoffStore \<Rightarrow> int \<Rightarrow> string \<Rightarrow> KeyValueEntry \<Rightarrow> error + HintedHandoffStore" where
  "HintedHandoffStore_Store s now targetNode entry =
     (let hint = \<lparr>TargetNode = targetNode, HintEntry = entry, CreatedAt = now, Attempts = 0\<rparr>;
          hs = (case hints s targetNode of None \<Rightarrow> [] | Some l \<Rightarrow> l)
      in if int (length hs) \<ge> maxSize s then
           (case hs of
              [] \<Rightarrow> Inl (Panic ''slice bounds out of range [1:0]'')
            | oldest # hs' \<Rightarrow> Inr (s\<lparr>hints := (hints s)(targetNode \<mapsto> hs' @ [hint])\<rparr>))
         else Inr (s\<lparr>hints := (hints s)(targetNode \<mapsto> hs @ [hint])\<rparr>))"

text \<open>\<open>HintedHandoffStore.GetHints\<close>; \<open>nil\<close> is the empty list.\<close>

definition HintedHandoffStore_GetHints :: "HintedHandoffStore \<Rightarrow> string \<Rightarrow> HintedHandoff list" where
  "HintedHandoffStore_GetHints s targetNode =
     (case hints s targetNode of None \<Rightarrow> [] | Some l \<Rightarrow> l)"

section \<open>The HTTP handlers of the key-value operations (api)\<close>

text \<open>
  \<open>Server\<close>: its configuration and its coordinator (\<open>nil\<close> in single-node mode); the storage
  engine is the shared store.  A handler takes the key of the URL and the decoded fields of
  the request, and returns the HTTP status, the store and the replication requests sent.
  \<open>now\<close> is the value of \<open>time.Now().UnixNano()\<close> taken during the request.
\<close>

record Server =
  srv_config :: Config
  srv_coordinator :: "Coordinator option"

definition handlePut ::
  "Server \<Rightarrow> Net \<Rightarrow> Bitcask \<Rightarrow> int64 \<Rightarrow> bytes \<Rightarrow> bytes \<Rightarrow> string \<Rightarrow> nat \<times> Bitcask \<times> sent" where
  "handlePut s net st now key val reqConsistency =
     (if key = [] then (400, st, [])
      else if val = [] then (400, st, [])
      else
        (let consistency = (if reqConsistency = [] then ''quorum'' else reqConsistency) in
         case srv_coordinator s of
           Some c \<Rightarrow>
             (case Coordinator_Put net c st now key val consistency of
                (Some err, st', sent) \<Rightarrow> (500, st', sent)
              | (None, st', sent) \<Rightarrow> (200, st', sent))
         | None \<Rightarrow>
             (case Bitcask_Put st key val now of
                (Some err, st') \<Rightarrow> (500, st', [])
              | (None, st') \<Rightarrow> (200, st', []))))"

text \<open>\<open>handleDelete\<close>: the handler reads no consistency level and calls the store, whether
  the server has a coordinator or not.\<close>

definition handleDelete ::
  "Server \<Rightarrow> Net \<Rightarrow> Bitcask \<Rightarrow> int64 \<Rightarrow> bytes \<Rightarrow> nat \<times> Bitcask \<times> sent" where
  "handleDelete s net st now key =
     (if key = [] then (400, st, [])
      else
        (case Bitcask_Delete st key now of
           (Some err, st') \<Rightarrow> (500, st', [])
         | (None, st') \<Rightarrow> (200, st', [])))"

text \<open>
  The objects that \<open>main\<close> creates for a node: the store, the coordinator, the server and the
  hinted handoff store.  The handoff store is handed to the handoff manager only; the
  server and the coordinator hold no reference to it.  \<open>node_put\<close> is a \<open>PUT /kv/{key}\<close>
  request served by the node.
\<close>

record NodeProcess =
  proc_store :: Bitcask
  proc_server :: Server
  proc_handoff :: HintedHandoffStore

definition node_put ::
  "NodeProcess \<Rightarrow> Net \<Rightarrow> int64 \<Rightarrow> bytes \<Rightarrow> bytes \<Rightarrow> string \<Rightarrow> nat \<times> NodeProcess \<times> sent" where
  "node_put p net now key val reqConsistency =
     (case handlePut (proc_server p) net (proc_store p) now key val reqConsistency of
        (status, st', sent) \<Rightarrow> (status, p\<lparr>proc_store := st'\<rparr>, sent))"

text \<open>
  A cluster for examples: the node \<open>n1\<close> with replication factor 3 and quorums 2, a ring
  with one token for each of \<open>n1\<close>, \<open>n2\<close>, \<open>n3\<close>, the three nodes registered, a hash function
  that sends every key before the token of \<open>n1\<close>, and an empty store.
\<close>

definition example_config :: Config where
  "example_config = \<lparr>NodeID = ''n1'', ReplicationFactor = 3, ReadQuorum = 2, WriteQuorum = 2\<rparr>"

definition example_ring :: HashRing where
  "example_ring =
     \<lparr>vnodes = [\<lparr>Hash = 10, VNodeID = ''n1'', VNodeIdx = 0\<rparr>,
                \<lparr>Hash = 20, VNodeID = ''n2'', VNodeIdx = 0\<rparr>,
                \<lparr>Hash = 30, VNodeID = ''n3'', VNodeIdx = 0\<rparr>],
      nodeVNodes = [''n1'' \<mapsto> [10], ''n2'' \<mapsto> [20], ''n3'' \<mapsto> [30]],
      virtualCount = 1\<rparr>"

definition example_node :: "string \<Rightarrow> Node" where
  "example_node name = \<lparr>ID = name, Address = name, Port = 8080, State = NodeAlive\<rparr>"

definition example_coordinator :: Coordinator where
  "example_coordinator =
     \<lparr>coord_config = example_config, coord_ring = example_ring,
      coord_nodes = [''n1'' \<mapsto> example_node ''n1'', ''n2'' \<mapsto> example_node ''n2'',
                     ''n3'' \<mapsto> example_node ''n3'']\<rparr>"

definition example_server :: Server where
  "example_server = \<lparr>srv_config = example_config, srv_coordinator = Some example_coordinator\<rparr>"

definition empty_store :: Bitcask where
  "empty_store = \<lparr>dataFile = [], index = NewIndex, position = 0, closed = False,
                   syncWrite = False, totalReads = 0, totalWrites = 0\<rparr>"

text \<open>The key \<open>"k"\<close>, and three networks: every request succeeds and no node has data; \<open>n2\<close>
  is unreachable; \<open>n2\<close> and \<open>n3\<close> answer a read of the key \<open>"k"\<close> (the URLs
  \<open>http://n2:8080/internal/read?key=k\<close> and \<open>http://n3:8080/internal/read?key=k\<close>) with the
  entries given.\<close>

definition key_k :: bytes where
  "key_k = [0x6B]"

definition net_up :: Net where
  "net_up = \<lparr>hashf = (\<lambda>k. 5), post_replicate = (\<lambda>n r. True), get_read = (\<lambda>url. None)\<rparr>"

definition net_n2_down :: Net where
  "net_n2_down = \<lparr>hashf = (\<lambda>k. 5), post_replicate = (\<lambda>n r. n \<noteq> ''n2''),
                   get_read = (\<lambda>url. None)\<rparr>"

definition net_answers :: "KeyValueEntry option \<Rightarrow> KeyValueEntry option \<Rightarrow> Net" where
  "net_answers a2 a3 =
     \<lparr>hashf = (\<lambda>k. 5), post_replicate = (\<lambda>n r. True),
      get_read = (\<lambda>url. if url = read_url (example_node ''n2'') key_k then a2
                       else if url = read_url (example_node ''n3'') key_k then a3
                       else None)\<rparr>"

text \<open>Two entries for the key \<open>"k"\<close> with the same timestamp 5 and the values \<open>"a"\<close> and
  \<open>"b"\<close>, and the node process of \<open>n1\<close> with an empty hinted handoff store (hints kept for 24
  hours, at most 1000 per target, as \<open>main\<close> creates it).\<close>

definition entry_a :: KeyValueEntry where
  "entry_a = \<lparr>Key = key_k, Value = [0x61], Timestamp = 5, IsDeleted = False\<rparr>"

definition entry_b :: KeyValueEntry where
  "entry_b = \<lparr>Key = key_k, Value = [0x62], Timestamp = 5, IsDeleted = False\<rparr>"

definition example_process :: NodeProcess where
  "example_process =
     \<lparr>proc_store = empty_store, proc_server = example_server,
      proc_handoff = NewHintedHandoffStore 86400000000000 1000\<rparr>"

section \<open>Properties: the table of required acknowledgements\<close>

text \<open>
  Claim C9.  With replication factor N, read quorum R and write quorum W, the required
  number of write acknowledgements is 1 for level one, W for quorum and N for all, and the
  required number of read responses is 1, R and N; the coordinator and the quorum manager
  agree on it.
\<close>

theorem quorum_table:
  "getWriteQuorum \<lparr>NodeID = nid, ReplicationFactor = N, ReadQuorum = R, WriteQuorum = W\<rparr>
      ConsistencyOne = 1
   \<and> getWriteQuorum \<lparr>NodeID = nid, ReplicationFactor = N, ReadQuorum = R, WriteQuorum = W\<rparr>
      ConsistencyQuorum = W
   \<and> getWriteQuorum \<lparr>NodeID = nid, ReplicationFactor = N, ReadQuorum = R, WriteQuorum = W\<rparr>
      ConsistencyAll = N
   \<and> getReadQuorum \<lparr>NodeID = nid, ReplicationFactor = N, ReadQuorum = R, WriteQuorum = W\<rparr>
      ConsistencyOne = 1
   \<and> getReadQuorum \<lparr>NodeID = nid, ReplicationFactor = N, ReadQuorum = R, WriteQuorum = W\<rparr>
      ConsistencyQuorum = R
   \<and> getReadQuorum \<lparr>NodeID = nid, ReplicationFactor = N, ReadQuorum = R, WriteQuorum = W\<rparr>
      ConsistencyAll = N
   \<and> getWriteRequirement (NewQuorumManager N R W) ConsistencyOne = 1
   \<and> getWriteRequirement (NewQuorumManager N R W) ConsistencyQuorum = W
   \<and> getWriteRequirement (NewQuorumManager N R W) ConsistencyAll = N
   \<and> getReadRequirement (NewQuorumManager N R W) ConsistencyOne = 1
   \<and> getReadRequirement (NewQuorumManager N R W) ConsistencyQuorum = R
   \<and> getReadRequirement (NewQuorumManager N R W) ConsistencyAll = N"
  by (simp add: getWriteQuorum_def getReadQuorum_def getWriteRequirement_def
      getReadRequirement_def NewQuorumManager_def ConsistencyOne_def ConsistencyQuorum_def
      ConsistencyAll_def)

section \<open>The index counters\<close>

text \<open>
  Claim C10 says that in every index reached from a fresh one the active counter is the
  number of live entries.  Putting a key, deleting it and putting it again leaves one live
  entry and no tombstone, while \<open>Count\<close> reports 0: the branch of \<open>Index.Put\<close> for an
  existing tombstone decrements \<open>deleted\<close> and does not increment \<open>active\<close>.
\<close>

theorem index_count_after_reput:
  "Index_Count (index_run [IPut [1] 0 1 1, IDelete [1] 2, IPut [1] 44 1 3]) = 0
   \<and> Index_DeletedCount (index_run [IPut [1] 0 1 1, IDelete [1] 2, IPut [1] 44 1 3]) = 0
   \<and> live_keys (index_run [IPut [1] 0 1 1, IDelete [1] 2, IPut [1] 44 1 3]) = {[1]}
   \<and> tombstone_keys (index_run [IPut [1] 0 1 1, IDelete [1] 2, IPut [1] 44 1 3]) = {}"
  by (auto simp add: index_run_def Index_Put_def Index_Delete_def NewIndex_def
      Index_Count_def Index_DeletedCount_def live_keys_def tombstone_keys_def
      split: if_splits)

text \<open>One more delete of that key makes the active counter negative, and \<open>Keys\<close> panics.\<close>

lemma Index_Keys_panics:
  "Index_Keys [[1]] (index_run [IPut [1] 0 1 1, IDelete [1] 2, IPut [1] 44 1 3, IDelete [1] 4])
   = Inl (Panic ''makeslice: cap out of range'')"
  by (simp add: Index_Keys_def index_run_def Index_Put_def Index_Delete_def NewIndex_def)

section \<open>The preference list\<close>

lemma Search_loop_stop: "\<not> i < j \<Longrightarrow> Search_loop f i j = i"
  by (subst Search_loop.simps) simp

lemma Search_loop_right:
  "i < j \<Longrightarrow> \<not> f ((i + j) div 2) \<Longrightarrow> Search_loop f i j = Search_loop f ((i + j) div 2 + 1) j"
  by (subst Search_loop.simps) (simp add: Let_def)

lemma Search_loop_left:
  "i < j \<Longrightarrow> f ((i + j) div 2) \<Longrightarrow> Search_loop f i j = Search_loop f i ((i + j) div 2)"
  by (subst Search_loop.simps) (simp add: Let_def)

lemma Search_loop_bounds:
  "i \<le> j \<Longrightarrow> i \<le> Search_loop f i j \<and> Search_loop f i j \<le> j"
proof (induction f i j rule: Search_loop.induct)
  case (1 f i j)
  show ?case
  proof (cases "i < j")
    case True
    let ?h = "(i + j) div 2"
    have hb: "i \<le> ?h" "?h < j" using True by auto
    show ?thesis
    proof (cases "f ?h")
      case True
      have "i \<le> Search_loop f i ?h \<and> Search_loop f i ?h \<le> ?h"
        using 1(2)[OF \<open>i < j\<close> refl] True hb by simp
      then show ?thesis using Search_loop_left[of i j f] \<open>i < j\<close> True hb by linarith
    next
      case False
      have "?h + 1 \<le> Search_loop f (?h + 1) j \<and> Search_loop f (?h + 1) j \<le> j"
        using 1(1)[OF \<open>i < j\<close> refl False] hb by simp
      then show ?thesis using Search_loop_right[of i j f] \<open>i < j\<close> False hb by linarith
    qed
  next
    case False
    then show ?thesis using 1(3) by (simp add: Search_loop_stop)
  qed
qed

lemma Search_loop_correct:
  assumes "i \<le> j" "\<forall>k<i. \<not> f k" "\<forall>k\<ge>j. k < n \<longrightarrow> f k" "j \<le> n"
    and mono: "\<forall>a b. a \<le> b \<longrightarrow> b < n \<longrightarrow> f a \<longrightarrow> f b"
  shows "(\<forall>k < Search_loop f i j. \<not> f k) \<and> (\<forall>k\<ge>Search_loop f i j. k < n \<longrightarrow> f k)"
  using assms
proof (induction f i j rule: Search_loop.induct)
  case (1 f i j)
  note mono' = 1(7)[rule_format]
  note mono = 1(7)
  show ?case
  proof (cases "i < j")
    case True
    let ?h = "(i + j) div 2"
    have hb: "i \<le> ?h" "?h < j" using True by auto
    then have hn: "?h < n" using 1(6) by linarith
    show ?thesis
    proof (cases "f ?h")
      case True
      have a: "\<forall>k\<ge>?h. k < n \<longrightarrow> f k"
      proof (intro allI impI)
        fix k assume "?h \<le> k" "k < n"
        then show "f k" using mono'[of ?h k] True by blast
      qed
      have b: "?h \<le> n" using hn by simp
      have "(\<forall>k < Search_loop f i ?h. \<not> f k) \<and> (\<forall>k\<ge>Search_loop f i ?h. k < n \<longrightarrow> f k)"
        by (rule 1(2)[OF \<open>i < j\<close> refl _ hb(1) 1(4) a b mono]) (use True in simp_all)
      then show ?thesis using Search_loop_left[of i j f] \<open>i < j\<close> True by simp
    next
      case False
      have a: "\<forall>k<?h + 1. \<not> f k"
      proof (intro allI impI)
        fix k assume "k < ?h + 1"
        then have kh: "k \<le> ?h" by simp
        show "\<not> f k"
        proof
          assume "f k"
          then have "f ?h" using mono'[of k ?h] kh hn by blast
          with False show False by simp
        qed
      qed
      have b: "?h + 1 \<le> j" using hb by simp
      have "(\<forall>k < Search_loop f (?h + 1) j. \<not> f k)
            \<and> (\<forall>k\<ge>Search_loop f (?h + 1) j. k < n \<longrightarrow> f k)"
        by (rule 1(1)[OF \<open>i < j\<close> refl False b a 1(5) 1(6) mono])
      then show ?thesis using Search_loop_right[of i j f] \<open>i < j\<close> False by simp
    qed
  next
    case False
    then have "i = j" using 1(3) by simp
    then show ?thesis using 1(4,5) False by (simp add: Search_loop_stop)
  qed
qed

lemma sort_Search_takeWhile:
  assumes "sorted_wrt (\<lambda>a b. Hash a \<le> Hash b) vs"
  shows "sort_Search (length vs) (\<lambda>i. Hash (vs ! i) \<ge> h)
         = length (takeWhile (\<lambda>v. Hash v < h) vs)"
proof -
  let ?f = "\<lambda>i. Hash (vs ! i) \<ge> h"
  let ?r = "Search_loop ?f 0 (length vs)"
  have mono: "\<forall>a b. a \<le> b \<longrightarrow> b < length vs \<longrightarrow> ?f a \<longrightarrow> ?f b"
  proof (intro allI impI)
    fix a b assume ab: "a \<le> b" "b < length vs" "h \<le> Hash (vs ! a)"
    have "Hash (vs ! a) \<le> Hash (vs ! b)"
    proof (cases "a = b")
      case True then show ?thesis by simp
    next
      case False
      then have "a < b" using ab by simp
      then show ?thesis using assms ab(2) sorted_wrt_iff_nth_less[of "\<lambda>a b. Hash a \<le> Hash b" vs] by blast
    qed
    with ab(3) show "h \<le> Hash (vs ! b)" by simp
  qed
  have c: "(\<forall>k < ?r. \<not> ?f k) \<and> (\<forall>k\<ge>?r. k < length vs \<longrightarrow> ?f k)"
    by (rule Search_loop_correct[where n = "length vs", OF _ _ _ _ mono]) simp_all
  have b: "?r \<le> length vs" using Search_loop_bounds[of 0 "length vs" ?f] by simp
  have "takeWhile (\<lambda>v. Hash v < h) vs = take ?r vs"
  proof (rule takeWhile_eq_take_P_nth)
    fix i assume "i < ?r" "i < length vs"
    then have "\<not> h \<le> Hash (vs ! i)" using c by blast
    then show "Hash (vs ! i) < h" by (simp add: not_le)
  next
    assume "?r < length vs"
    then have "h \<le> Hash (vs ! ?r)" using c by blast
    then show "\<not> Hash (vs ! ?r) < h" by (simp add: not_less)
  qed
  then have "length (takeWhile (\<lambda>v. Hash v < h) vs) = ?r" using b by simp
  then show ?thesis by (simp only: sort_Search_def)
qed

lemma first_occ_set: "set (first_occ seen xs) = set xs - seen"
  by (induction xs arbitrary: seen) auto

lemma first_occ_distinct: "distinct (first_occ seen xs)"
  by (induction xs arbitrary: seen) (auto simp: first_occ_set)

lemma first_occ_length: "length (first_occ seen xs) = card (set xs - seen)"
  using distinct_card[OF first_occ_distinct, of seen xs] by (simp add: first_occ_set)

lemma GetNodes_loop_stop:
  "\<not> (i < length vs \<and> int (length nodes) < n) \<Longrightarrow>
   GetNodes_loop vs startIdx n i nodes seen = nodes"
  by (subst GetNodes_loop.simps) auto

lemma GetNodes_loop_new:
  "i < length vs \<Longrightarrow> int (length nodes) < n \<Longrightarrow>
   VNodeID (vs ! ((startIdx + i) mod length vs)) \<notin> seen \<Longrightarrow>
   GetNodes_loop vs startIdx n i nodes seen
   = GetNodes_loop vs startIdx n (i + 1)
       (nodes @ [VNodeID (vs ! ((startIdx + i) mod length vs))])
       (insert (VNodeID (vs ! ((startIdx + i) mod length vs))) seen)"
  by (subst GetNodes_loop.simps) (simp add: Let_def)

lemma GetNodes_loop_seen:
  "i < length vs \<Longrightarrow> int (length nodes) < n \<Longrightarrow>
   VNodeID (vs ! ((startIdx + i) mod length vs)) \<in> seen \<Longrightarrow>
   GetNodes_loop vs startIdx n i nodes seen = GetNodes_loop vs startIdx n (i + 1) nodes seen"
  by (subst GetNodes_loop.simps) (simp add: Let_def)

lemma GetNodes_loop_walk:
  assumes "seen = set nodes" "int (length nodes) \<le> n" "i \<le> length vs"
  shows "GetNodes_loop vs startIdx n i nodes seen
         = take (nat n) (nodes @ first_occ seen (drop i (map VNodeID (rotate startIdx vs))))"
  using assms
proof (induction vs startIdx n i nodes seen rule: GetNodes_loop.induct)
  case (1 vs startIdx n i nodes seen)
  let ?ws = "map VNodeID (rotate startIdx vs)"
  let ?id = "VNodeID (vs ! ((startIdx + i) mod length vs))"
  have ln: "length nodes \<le> nat n" using 1(4) by linarith
  show ?case
  proof (cases "i < length vs \<and> int (length nodes) < n")
    case True
    then have il: "i < length vs" and nl: "int (length nodes) < n" by simp_all
    have "drop i ?ws = ?ws ! i # drop (Suc i) ?ws"
      using il by (metis Cons_nth_drop_Suc length_map length_rotate)
    moreover have "?ws ! i = ?id" using il by (simp add: nth_rotate)
    ultimately have dr: "drop i ?ws = ?id # drop (i + 1) ?ws" by simp
    show ?thesis
    proof (cases "?id \<in> seen")
      case in_seen: True
      have ih: "GetNodes_loop vs startIdx n (i + 1) nodes seen
            = take (nat n) (nodes @ first_occ seen (drop (i + 1) ?ws))"
        by (rule 1(2)[OF True refl refl]) (use in_seen 1(3,4) il in simp_all)
      show ?thesis
        using GetNodes_loop_seen[OF il nl in_seen] ih dr in_seen by simp
    next
      case False
      have l2: "int (length (nodes @ [?id])) \<le> n" using nl by simp
      have ih: "GetNodes_loop vs startIdx n (i + 1) (nodes @ [?id]) (insert ?id seen)
            = take (nat n) ((nodes @ [?id])
                 @ first_occ (insert ?id seen) (drop (i + 1) ?ws))"
        by (rule 1(1)[OF True refl refl False _ l2]) (use 1(3) il in simp_all)
      show ?thesis
        using GetNodes_loop_new[OF il nl False] ih dr False by simp
    qed
  next
    case False
    have "take (nat n) (nodes @ first_occ seen (drop i ?ws)) = nodes"
    proof (cases "i < length vs")
      case True
      with False have "int (length nodes) = n" using 1(4) by simp
      then have "nat n = length nodes" by simp
      then show ?thesis by simp
    next
      case False
      then have "drop i ?ws = []" using 1(5) by simp
      then show ?thesis using ln by simp
    qed
    then show ?thesis using GetNodes_loop_stop[OF False] by simp
  qed
qed

text \<open>
  Claim C8.  On a non-empty ring whose token list is sorted by hash (the order
  \<open>AddNode\<close> establishes and \<open>RemoveNode\<close> keeps), for every key and every \<open>n \<ge> 1\<close>,
  \<open>GetNodes\<close> returns pairwise distinct node identifiers, namely the first \<open>n\<close> of the walk
  from the first token with hash at least the hash of the key, and their number is the
  minimum of \<open>n\<close> and the number of distinct physical nodes of the ring.
\<close>

theorem preference_list:
  assumes "vnodes r \<noteq> []"
    and "sorted_wrt (\<lambda>a b. Hash a \<le> Hash b) (vnodes r)"
    and "1 \<le> n"
  shows "\<exists>nodes. GetNodes hf r key n = Inr nodes
           \<and> distinct nodes
           \<and> nodes = take (nat n) (walk_distinct (vnodes r) (hf key))
           \<and> int (length nodes) = min n (int (card (VNodeID ` set (vnodes r))))"
proof -
  let ?vs = "vnodes r"
  let ?s = "ring_start ?vs (hf key)"
  have s: "?s < length ?vs" using assms(1) by (simp add: ring_start_def Let_def)
  have st: "(let startIdx = sort_Search (length ?vs) (\<lambda>i. Hash (?vs ! i) \<ge> hf key)
             in if startIdx \<ge> length ?vs then 0 else startIdx) = ?s"
    using sort_Search_takeWhile[OF assms(2)] by (simp add: ring_start_def Let_def not_le)
  have lp: "GetNodes_loop ?vs ?s n 0 [] {} = take (nat n) (walk_distinct ?vs (hf key))"
    using GetNodes_loop_walk[of "{}" "[]" n 0 ?vs ?s] assms(3) by (simp add: walk_distinct_def)
  have g: "GetNodes hf r key n = Inr (take (nat n) (walk_distinct ?vs (hf key)))"
    using assms(1,3) st lp by (simp add: GetNodes_def Let_def)
  have d: "distinct (take (nat n) (walk_distinct ?vs (hf key)))"
    by (simp add: walk_distinct_def first_occ_distinct)
  have l: "length (walk_distinct ?vs (hf key)) = card (VNodeID ` set ?vs)"
    by (simp add: walk_distinct_def first_occ_length)
  show ?thesis using g d l assms(3) by auto
qed


theorem preference_list_witness:
  "GetNodes (\<lambda>k. 15)
     \<lparr>vnodes = [\<lparr>Hash = 10, VNodeID = ''a'', VNodeIdx = 0\<rparr>,
                \<lparr>Hash = 20, VNodeID = ''b'', VNodeIdx = 0\<rparr>,
                \<lparr>Hash = 30, VNodeID = ''a'', VNodeIdx = 1\<rparr>],
      nodeVNodes = [''a'' \<mapsto> [10, 30], ''b'' \<mapsto> [20]], virtualCount = 2\<rparr> [7] 5
   = Inr [''b'', ''a'']"
  using preference_list [of
     "\<lparr>vnodes = [\<lparr>Hash = 10, VNodeID = ''a'', VNodeIdx = 0\<rparr>,
                \<lparr>Hash = 20, VNodeID = ''b'', VNodeIdx = 0\<rparr>,
                \<lparr>Hash = 30, VNodeID = ''a'', VNodeIdx = 1\<rparr>],
      nodeVNodes = [''a'' \<mapsto> [10, 30], ''b'' \<mapsto> [20]], virtualCount = 2\<rparr>"
     5 "\<lambda>k. 15" "[7]"]
  by (simp add: walk_distinct_def ring_start_def)

section \<open>The log store: records and the round trip\<close>

lemma bit_byte64:
  "bit (push_bit k (ucast (ucast (drop_bit k w) :: 8 word) :: 64 word)) n
   \<longleftrightarrow> k \<le> n \<and> n < k + 8 \<and> bit (w :: 64 word) n"
  by (auto simp add: bit_simps dest: bit_imp_le_length)

lemma bit_byte64_0:
  "bit (ucast (ucast w :: 8 word) :: 64 word) n \<longleftrightarrow> n < 8 \<and> bit (w :: 64 word) n"
  by (auto simp add: bit_simps)

lemma bit_byte32:
  "bit (push_bit k (ucast (ucast (drop_bit k w) :: 8 word) :: 32 word)) n
   \<longleftrightarrow> k \<le> n \<and> n < k + 8 \<and> bit (w :: 32 word) n"
  by (auto simp add: bit_simps dest: bit_imp_le_length)

lemma bit_byte32_0:
  "bit (ucast (ucast w :: 8 word) :: 32 word) n \<longleftrightarrow> n < 8 \<and> bit (w :: 32 word) n"
  by (auto simp add: bit_simps)

lemma Uint32_PutUint32: "Uint32 (PutUint32 w) = w"
proof (rule bit_word_eqI)
  fix n assume "n < LENGTH(32)"
  then have "n < 32" by simp
  then show "bit (Uint32 (PutUint32 w)) n = bit w n"
    unfolding Uint32_def PutUint32_def
    by (simp add: bit_or_iff bit_byte32 bit_byte32_0) linarith
qed

lemma Uint64_PutUint64: "Uint64 (PutUint64 w) = w"
proof (rule bit_word_eqI)
  fix n assume "n < LENGTH(64)"
  then have "n < 64" by simp
  then show "bit (Uint64 (PutUint64 w)) n = bit w n"
    unfolding Uint64_def PutUint64_def
    by (simp add: bit_or_iff bit_byte64 bit_byte64_0) linarith
qed

lemma length_PutUint32: "length (PutUint32 w) = 4"
  by (simp add: PutUint32_def)

lemma length_PutUint64: "length (PutUint64 w) = 8"
  by (simp add: PutUint64_def)

lemma length_recordBytes:
  "length (recordBytes key val ts del) = 21 + length key + length val"
  by (simp add: recordBytes_def Let_def length_PutUint32 length_PutUint64)

lemma ReadFull_prefix:
  "length a = n \<Longrightarrow> (n \<noteq> 0 \<Longrightarrow> a \<noteq> []) \<Longrightarrow> ReadFull (a @ rest) n = Inr (a, rest)"
  by (auto simp add: ReadFull_def)

lemma ReadFull_InrD:
  "ReadFull s n = Inr (a, rest) \<Longrightarrow> s = a @ rest \<and> length a = n"
  by (auto simp add: ReadFull_def split: if_splits)

lemma readEntry_header:
  assumes hdr: "length hdr = 21"
    and kl: "length key = unat (Uint32 (take 4 (drop 12 hdr)))"
    and vl: "length val = unat (Uint32 (take 4 (drop 16 hdr)))"
    and crc: "Uint32 (take 4 hdr) = ChecksumIEEE (drop 4 hdr @ key @ val)"
  shows "readEntry (hdr @ key @ val @ rest) off
         = Inr (\<lparr>EntryKey = key, EntryValue = val,
                  EntryTimestamp = Uint64 (take 8 (drop 4 hdr)),
                  EntryIsDeleted = (hdr ! 20 = 1), EntryOffset = off,
                  EntrySize = Uint32 (take 4 (drop 16 hdr))\<rparr>,
                 21 + length key + length val)"
proof -
  have r1: "ReadFull (hdr @ key @ val @ rest) headerSize = Inr (hdr, key @ val @ rest)"
    using hdr by (intro ReadFull_prefix) (auto simp add: headerSize_def)
  have r2: "ReadFull (key @ val @ rest) (unat (Uint32 (take 4 (drop 12 hdr))))
            = Inr (key, val @ rest)"
    using kl by (intro ReadFull_prefix) auto
  have r3: "ReadFull (val @ rest) (unat (Uint32 (take 4 (drop 16 hdr)))) = Inr (val, rest)"
    using vl by (intro ReadFull_prefix) auto
  show ?thesis
    unfolding readEntry_def
    by (simp add: r1 r2 r3 Let_def crc kl vl) (simp add: headerSize_def)
qed

lemma readEntry_InrD:
  assumes "readEntry s off = Inr (e, n)"
  shows "\<exists>hdr rest. s = hdr @ EntryKey e @ EntryValue e @ rest \<and> length hdr = 21
           \<and> length (EntryKey e) = unat (Uint32 (take 4 (drop 12 hdr)))
           \<and> length (EntryValue e) = unat (Uint32 (take 4 (drop 16 hdr)))
           \<and> Uint32 (take 4 hdr) = ChecksumIEEE (drop 4 hdr @ EntryKey e @ EntryValue e)
           \<and> EntryTimestamp e = Uint64 (take 8 (drop 4 hdr))
           \<and> EntryIsDeleted e = (hdr ! 20 = 1)
           \<and> EntryOffset e = off
           \<and> EntrySize e = Uint32 (take 4 (drop 16 hdr))
           \<and> n = 21 + length (EntryKey e) + length (EntryValue e)"
proof -
  from assms obtain hdr r1 where h: "ReadFull s headerSize = Inr (hdr, r1)"
    by (cases "ReadFull s headerSize") (auto simp add: readEntry_def)
  let ?kl = "Uint32 (take 4 (drop 12 hdr))"
  let ?vl = "Uint32 (take 4 (drop 16 hdr))"
  from assms h obtain key r2 where k: "ReadFull r1 (unat ?kl) = Inr (key, r2)"
    by (cases "ReadFull r1 (unat ?kl)") (auto simp add: readEntry_def Let_def)
  from assms h k obtain val r3 where v: "ReadFull r2 (unat ?vl) = Inr (val, r3)"
    by (cases "ReadFull r2 (unat ?vl)") (auto simp add: readEntry_def Let_def)
  from assms h k v have e: "Uint32 (take 4 hdr) = ChecksumIEEE (drop 4 hdr @ key @ val)"
    "e = \<lparr>EntryKey = key, EntryValue = val,
                  EntryTimestamp = Uint64 (take 8 (drop 4 hdr)),
                  EntryIsDeleted = (hdr ! 20 = 1), EntryOffset = off,
                  EntrySize = ?vl\<rparr>"
    "n = headerSize + unat ?kl + unat ?vl"
    by (auto simp add: readEntry_def Let_def split: if_splits)
  from ReadFull_InrD[OF h] ReadFull_InrD[OF k] ReadFull_InrD[OF v] e
  show ?thesis by (auto simp add: headerSize_def)
qed

lemma readEntry_append:
  assumes "readEntry s off = Inr (e, n)"
  shows "readEntry (s @ x) off = Inr (e, n)"
proof -
  from readEntry_InrD[OF assms] obtain hdr rest where
    d: "s = hdr @ EntryKey e @ EntryValue e @ rest" "length hdr = 21"
       "length (EntryKey e) = unat (Uint32 (take 4 (drop 12 hdr)))"
       "length (EntryValue e) = unat (Uint32 (take 4 (drop 16 hdr)))"
       "Uint32 (take 4 hdr) = ChecksumIEEE (drop 4 hdr @ EntryKey e @ EntryValue e)"
       "EntryTimestamp e = Uint64 (take 8 (drop 4 hdr))"
       "EntryIsDeleted e = (hdr ! 20 = 1)"
       "EntryOffset e = off"
       "EntrySize e = Uint32 (take 4 (drop 16 hdr))"
       "n = 21 + length (EntryKey e) + length (EntryValue e)"
    by blast
  have "readEntry (hdr @ EntryKey e @ EntryValue e @ (rest @ x)) off = Inr (e, n)"
    using readEntry_header[OF d(2,3,4,5), of "rest @ x" off] d(6-10) by simp
  then show ?thesis using d(1) by simp
qed

lemma readEntry_recordBytes:
  assumes "length key < 2 ^ 32" "length val < 2 ^ 32"
  shows "readEntry (recordBytes key val ts del @ rest) off
         = Inr (\<lparr>EntryKey = key, EntryValue = val, EntryTimestamp = ts,
                  EntryIsDeleted = del, EntryOffset = off,
                  EntrySize = of_nat (length val)\<rparr>,
                 21 + length key + length val)"
proof -
  let ?kl = "of_nat (length key) :: 32 word"
  let ?vl = "of_nat (length val) :: 32 word"
  let ?h4 = "PutUint64 ts @ PutUint32 ?kl @ PutUint32 ?vl @ [if del then 1 else 0 :: byte]"
  let ?hd = "PutUint32 (ChecksumIEEE (?h4 @ key @ val)) @ ?h4"
  have uk: "unat ?kl = length key" using assms(1) by (simp add: unat_of_nat)
  have uv: "unat ?vl = length val" using assms(2) by (simp add: unat_of_nat)
  have l: "length ?hd = 21" by (simp add: length_PutUint32 length_PutUint64)
  have t0: "take 4 ?hd = PutUint32 (ChecksumIEEE (?h4 @ key @ val))"
    by (simp add: length_PutUint32)
  have t1: "drop 4 ?hd = ?h4" by (simp add: length_PutUint32)
  have t2: "take 8 (drop 4 ?hd) = PutUint64 ts"
    by (simp add: length_PutUint32 length_PutUint64)
  have t3: "take 4 (drop 12 ?hd) = PutUint32 ?kl"
    by (simp add: length_PutUint32 length_PutUint64)
  have t4: "take 4 (drop 16 ?hd) = PutUint32 ?vl"
    by (simp add: length_PutUint32 length_PutUint64)
  have t5: "?hd ! 20 = (if del then 1 else 0)"
    by (simp add: nth_append length_PutUint32 length_PutUint64)
  have "readEntry (?hd @ key @ val @ rest) off
        = Inr (\<lparr>EntryKey = key, EntryValue = val,
                  EntryTimestamp = Uint64 (take 8 (drop 4 ?hd)),
                  EntryIsDeleted = (?hd ! 20 = 1), EntryOffset = off,
                  EntrySize = Uint32 (take 4 (drop 16 ?hd))\<rparr>,
                 21 + length key + length val)"
    by (rule readEntry_header[OF l])
       (simp_all only: t0 t1 t3 t4 Uint32_PutUint32 uk uv)
  moreover have "recordBytes key val ts del @ rest = ?hd @ key @ val @ rest"
    by (simp add: recordBytes_def Let_def)
  ultimately show ?thesis
    by (simp only: t2 t4 t5 Uint32_PutUint32 Uint64_PutUint64) simp
qed



lemma record_at_bound: "record_at fl off e \<Longrightarrow> off < length fl"
proof (rule ccontr)
  assume r: "record_at fl off e" and "\<not> off < length fl"
  then have "drop off fl = []" by simp
  then have "readEntry (drop off fl) off = Inl EOF"
    by (simp add: readEntry_def ReadFull_def headerSize_def)
  with r show False by (simp add: record_at_def)
qed

lemma record_at_append:
  assumes "record_at fl off e"
  shows "record_at (fl @ x) off e"
proof -
  from assms obtain n where r: "readEntry (drop off fl) off = Inr (e, n)"
    by (auto simp add: record_at_def split: sum.splits)
  have "off \<le> length fl" using record_at_bound[OF assms] by simp
  then have "drop off (fl @ x) = drop off fl @ x" by simp
  then show ?thesis using readEntry_append[OF r, of x] by (simp add: record_at_def)
qed

lemma record_at_written:
  assumes "length key < 2 ^ 32" "length val < 2 ^ 32"
  shows "record_at (fl @ recordBytes key val ts del) (length fl)
           \<lparr>EntryKey = key, EntryValue = val, EntryTimestamp = ts,
            EntryIsDeleted = del, EntryOffset = length fl,
            EntrySize = of_nat (length val)\<rparr>"
  using readEntry_recordBytes[OF assms, of ts del "[]" "length fl"]
  by (simp add: record_at_def)

lemma last_op_snoc:
  "last_op (ops @ [x]) key = (if op_key x = key then Some x else last_op ops key)"
  by (simp add: last_op_def)

lemma key_tracks_append:
  assumes "key_tracks bc key lo"
    and "entries (index bc') key = entries (index bc) key"
    and "dataFile bc' = dataFile bc @ x"
  shows "key_tracks bc' key lo"
proof (cases lo)
  case None
  then show ?thesis using assms by simp
next
  case (Some a)
  then show ?thesis using assms
    by (cases a) (auto split: option.splits intro: record_at_append)
qed

lemma entries_Index_Put:
  "entries (Index_Put idx key off sz ts)
   = (entries idx)(key \<mapsto> \<lparr>Offset = off, Size = sz, ETimestamp = ts, EIsDeleted = False\<rparr>)"
  by (simp add: Index_Put_def Let_def split: option.splits)

lemma entries_Index_Delete_same:
  "\<exists>e. entries (snd (Index_Delete idx key ts)) key = Some e \<and> EIsDeleted e"
  by (auto simp add: Index_Delete_def split: option.splits)

lemma entries_Index_Delete_other:
  "k \<noteq> key \<Longrightarrow> entries (snd (Index_Delete idx key ts)) k = entries idx k"
  by (auto simp add: Index_Delete_def split: option.splits)

lemma Put_tracks:
  assumes t: "tracks bc ops" and f: "op_fits (OpPut key val ts)"
  shows "\<exists>bc'. Bitcask_Put bc key val ts = (None, bc') \<and> tracks bc' (ops @ [OpPut key val ts])"
proof -
  let ?rec = "recordBytes key val ts False"
  let ?bc' = "bc\<lparr>totalWrites := totalWrites bc + 1,
                 dataFile := dataFile bc @ ?rec,
                 position := position bc + length ?rec,
                 index := Index_Put (index bc) key (position bc) (of_nat (length val)) ts\<rparr>"
  from t have nc: "\<not> closed bc" and pos: "position bc = length (dataFile bc)"
    and kt: "\<And>k. key_tracks bc k (last_op ops k)"
    by (simp_all add: tracks_def)
  have p: "Bitcask_Put bc key val ts = (None, ?bc')"
    using nc by (simp add: Bitcask_Put_def writeEntry_def Let_def)
  note e = entries_Index_Put
  have "key_tracks ?bc' k (last_op (ops @ [OpPut key val ts]) k)" for k
  proof (cases "k = key")
    case True
    then show ?thesis
      using record_at_written[of key val "dataFile bc" ts False] f pos
      by (simp add: last_op_snoc e op_fits_def)
  next
    case False
    have "key_tracks ?bc' k (last_op ops k)"
      by (rule key_tracks_append[OF kt, where x = ?rec]) (use False in \<open>simp_all add: e\<close>)
    then show ?thesis using False by (simp add: last_op_snoc)
  qed
  then have "tracks ?bc' (ops @ [OpPut key val ts])"
    using nc pos by (simp add: tracks_def length_recordBytes)
  with p show ?thesis by blast
qed

lemma Delete_tracks:
  assumes t: "tracks bc ops" and f: "op_fits (OpDelete key ts)"
  shows "\<exists>bc'. Bitcask_Delete bc key ts = (None, bc') \<and> tracks bc' (ops @ [OpDelete key ts])"
proof -
  let ?rec = "recordBytes key [] ts True"
  let ?bc' = "bc\<lparr>totalWrites := totalWrites bc + 1,
                 dataFile := dataFile bc @ ?rec,
                 position := position bc + length ?rec,
                 index := snd (Index_Delete (index bc) key ts)\<rparr>"
  from t have nc: "\<not> closed bc" and pos: "position bc = length (dataFile bc)"
    and kt: "\<And>k. key_tracks bc k (last_op ops k)"
    by (simp_all add: tracks_def)
  have p: "Bitcask_Delete bc key ts = (None, ?bc')"
    using nc by (simp add: Bitcask_Delete_def writeEntry_def Let_def)
  have e1: "\<exists>e. entries (index ?bc') key = Some e \<and> EIsDeleted e"
    using entries_Index_Delete_same[of "index bc" key ts] by simp
  have e2: "k \<noteq> key \<Longrightarrow> entries (index ?bc') k = entries (index bc) k" for k
    using entries_Index_Delete_other[of k key "index bc" ts] by simp
  have "key_tracks ?bc' k (last_op (ops @ [OpDelete key ts]) k)" for k
  proof (cases "k = key")
    case True
    then show ?thesis using e1 by (auto simp add: last_op_snoc)
  next
    case False
    have "key_tracks ?bc' k (last_op ops k)"
      by (rule key_tracks_append[OF kt, where x = ?rec]) (use e2[OF False] in simp_all)
    then show ?thesis using False by (simp add: last_op_snoc)
  qed
  then have "tracks ?bc' (ops @ [OpDelete key ts])"
    using nc pos by (simp add: tracks_def length_recordBytes)
  with p show ?thesis by blast
qed

lemma step_tracks:
  assumes "tracks bc ops" "op_fits x"
  shows "\<exists>bc'. store_step bc x = (None, bc') \<and> tracks bc' (ops @ [x])"
  using assms Put_tracks Delete_tracks by (cases x) auto

lemma run_tracks:
  assumes "tracks bc ops" "\<forall>x\<in>set xs. op_fits x"
  shows "\<exists>bc'. store_run bc xs = Inr bc' \<and> tracks bc' (ops @ xs)"
  using assms
proof (induction xs arbitrary: bc ops)
  case Nil
  then show ?case by simp
next
  case (Cons x xs)
  from step_tracks[OF Cons.prems(1), of x] Cons.prems(2)
  obtain bc1 where s: "store_step bc x = (None, bc1)" and t: "tracks bc1 (ops @ [x])"
    by auto
  from Cons.IH[OF t] Cons.prems(2)
  obtain bc' where "store_run bc1 xs = Inr bc'" "tracks bc' ((ops @ [x]) @ xs)" by auto
  then show ?case using s by simp
qed

lemma tracks_Get:
  assumes "tracks bc ops"
  shows "fst (Bitcask_Get bc key) = expected_get ops key"
proof -
  from assms have nc: "\<not> closed bc" and kt: "key_tracks bc key (last_op ops key)"
    by (simp_all add: tracks_def)
  show ?thesis
  proof (cases "last_op ops key")
    case None
    then show ?thesis using kt nc
      by (simp add: Bitcask_Get_def Index_Get_def expected_get_def last_op_def Let_def)
  next
    case (Some a)
    show ?thesis
    proof (cases a)
      case (OpPut k v ts)
      with Some kt obtain e where e: "entries (index bc) key = Some e" "\<not> EIsDeleted e"
        "record_at (dataFile bc) (Offset e)
            \<lparr>EntryKey = key, EntryValue = v, EntryTimestamp = ts,
             EntryIsDeleted = False, EntryOffset = Offset e,
             EntrySize = of_nat (length v)\<rparr>"
        by (auto split: option.splits)
      from e(3) obtain n where "readEntry (drop (Offset e) (dataFile bc)) (Offset e)
          = Inr (\<lparr>EntryKey = key, EntryValue = v, EntryTimestamp = ts,
             EntryIsDeleted = False, EntryOffset = Offset e,
             EntrySize = of_nat (length v)\<rparr>, n)"
        by (auto simp add: record_at_def split: sum.splits)
      then show ?thesis using e(1,2) nc Some OpPut
        by (simp add: Bitcask_Get_def Index_Get_def expected_get_def last_op_def Let_def)
    next
      case (OpDelete k ts)
      with Some kt obtain e where "entries (index bc) key = Some e" "EIsDeleted e"
        by (auto split: option.splits)
      then show ?thesis using nc Some OpDelete
        by (simp add: Bitcask_Get_def Index_Get_def expected_get_def last_op_def Let_def)
    qed
  qed
qed

lemma NewBitcask_empty:
  "NewBitcask [] sw = Inr \<lparr>dataFile = [], index = NewIndex, position = 0, closed = False,
                syncWrite = sw, totalReads = 0, totalWrites = 0\<rparr>"
  by (simp add: NewBitcask_def)

lemma tracks_fresh:
  "tracks \<lparr>dataFile = [], index = NewIndex, position = 0, closed = False,
                syncWrite = sw, totalReads = 0, totalWrites = 0\<rparr> []"
  by (simp add: tracks_def last_op_def NewIndex_def)

text \<open>
  Claim C6.  On a fresh store, after any sequence of puts and deletes with strictly
  increasing timestamps (keys and values short enough for the 32-bit length fields of a
  record), the run succeeds and \<open>Get\<close> returns for every key the value and timestamp of the
  most recent operation on it, \<open>ErrKeyDeleted\<close> when that operation is a delete, and
  \<open>ErrKeyNotFound\<close> when the key was never written.  (The proof does not use the order of the
  timestamps: \<open>Index.Put\<close> replaces the entry unconditionally.)
\<close>

theorem log_round_trip:
  assumes "\<forall>x\<in>set ops. op_fits x"
    and "sorted_wrt (\<lambda>a b. sint a < sint b) (map op_timestamp ops)"
  shows "\<exists>bc0 bc. NewBitcask [] sw = Inr bc0 \<and> store_run bc0 ops = Inr bc
           \<and> (\<forall>key. fst (Bitcask_Get bc key) = expected_get ops key)"
proof -
  let ?bc0 = "\<lparr>dataFile = [], index = NewIndex, position = 0, closed = False,
                syncWrite = sw, totalReads = 0, totalWrites = 0\<rparr>"
  from run_tracks[OF tracks_fresh assms(1), of sw]
  obtain bc where "store_run ?bc0 ops = Inr bc" "tracks bc ops" by auto
  then show ?thesis using NewBitcask_empty[of sw] tracks_Get by blast
qed


theorem log_round_trip_witness:
  "\<exists>bc0 bc. NewBitcask [] False = Inr bc0
     \<and> store_run bc0 [OpPut [1] [2] 1, OpDelete [1] 2, OpPut [3] [4] 3, OpPut [3] [5] 4] = Inr bc
     \<and> fst (Bitcask_Get bc [1]) = Inl ErrKeyDeleted
     \<and> fst (Bitcask_Get bc [3]) = Inr ([5], 4)
     \<and> fst (Bitcask_Get bc [9]) = Inl ErrKeyNotFound"
proof -
  have "\<forall>x\<in>set [OpPut [1] [2] 1, OpDelete [1] 2, OpPut [3] [4] 3, OpPut [3] [5] 4]. op_fits x"
    by (simp add: op_fits_def)
  moreover have "sorted_wrt (\<lambda>a b. sint a < sint b)
      (map op_timestamp [OpPut [1] [2] 1, OpDelete [1] 2, OpPut [3] [4] 3, OpPut [3] [5] 4])"
    by simp
  ultimately obtain bc0 bc where
    "NewBitcask [] False = Inr bc0"
    "store_run bc0 [OpPut [1] [2] 1, OpDelete [1] 2, OpPut [3] [4] 3, OpPut [3] [5] 4] = Inr bc"
    "\<forall>key. fst (Bitcask_Get bc key)
        = expected_get [OpPut [1] [2] 1, OpDelete [1] 2, OpPut [3] [4] 3, OpPut [3] [5] 4] key"
    using log_round_trip [of "[OpPut [1] [2] 1, OpDelete [1] 2, OpPut [3] [4] 3, OpPut [3] [5] 4]"
        False]
    by blast
  then show ?thesis by (auto simp add: expected_get_def)
qed

section \<open>The log store: compaction\<close>

lemma record_at_fun: "record_at fl off e \<Longrightarrow> record_at fl off e' \<Longrightarrow> e = e'"
  by (auto simp add: record_at_def split: sum.splits)

lemma record_at_read:
  "record_at fl off e \<Longrightarrow> \<exists>n. readEntry (drop off fl) off = Inr (e, n)"
  by (auto simp add: record_at_def split: sum.splits)

lemma record_at_lengths:
  assumes "record_at fl off e"
  shows "length (EntryKey e) < 2 ^ 32 \<and> length (EntryValue e) < 2 ^ 32"
proof -
  from record_at_read[OF assms] obtain n where "readEntry (drop off fl) off = Inr (e, n)"
    by blast
  from readEntry_InrD[OF this] obtain hdr where
    "length (EntryKey e) = unat (Uint32 (take 4 (drop 12 hdr)))"
    "length (EntryValue e) = unat (Uint32 (take 4 (drop 16 hdr)))"
    by blast
  moreover have "unat (w :: 32 word) < 2 ^ 32" for w
    using unsigned_less[of w, where 'a = nat] by simp
  ultimately show ?thesis by simp
qed

lemma index_ok_append:
  assumes "index_ok fl idx"
  shows "index_ok (fl @ x) idx"
  using assms unfolding index_ok_def by (blast intro: record_at_append)

lemma index_ok_Put:
  assumes "index_ok fl idx" "record_at fl off re" "EntryKey re = key"
  shows "index_ok fl (Index_Put idx key off sz ts)"
  using assms unfolding index_ok_def by (auto simp add: entries_Index_Put)

lemma index_ok_Delete:
  assumes "index_ok fl idx"
  shows "index_ok fl (snd (Index_Delete idx key ts))"
  unfolding index_ok_def
proof (intro allI impI)
  fix k e
  assume a: "entries (snd (Index_Delete idx key ts)) k = Some e" "\<not> EIsDeleted e"
  have "k \<noteq> key" using a entries_Index_Delete_same[of idx key ts] by auto
  then have "entries idx k = Some e"
    using a(1) entries_Index_Delete_other[of k key idx ts] by simp
  then show "\<exists>re. record_at fl (Offset e) re \<and> EntryKey re = k"
    using assms a(2) unfolding index_ok_def by blast
qed

lemma store_inv_Put:
  assumes "store_inv bc" "length key < 2 ^ 32" "length val < 2 ^ 32"
    and "Bitcask_Put bc key val ts = (None, bc')"
  shows "store_inv bc'"
proof -
  let ?rec = "recordBytes key val ts False"
  from assms(4) have nc: "\<not> closed bc" by (auto simp add: Bitcask_Put_def split: if_splits)
  from assms(1) have pos: "position bc = length (dataFile bc)"
    and ok: "index_ok (dataFile bc) (index bc)" by (simp_all add: store_inv_def)
  have bc': "bc' = bc\<lparr>totalWrites := totalWrites bc + 1,
                 dataFile := dataFile bc @ ?rec,
                 position := position bc + length ?rec,
                 index := Index_Put (index bc) key (position bc) (of_nat (length val)) ts\<rparr>"
    using assms(4) nc by (simp add: Bitcask_Put_def writeEntry_def Let_def)
  have "index_ok (dataFile bc @ ?rec)
          (Index_Put (index bc) key (length (dataFile bc)) (of_nat (length val)) ts)"
    by (rule index_ok_Put[OF index_ok_append[OF ok]
          record_at_written[OF assms(2,3), of "dataFile bc" ts False]]) simp
  then show ?thesis using pos by (simp add: bc' store_inv_def)
qed

lemma store_inv_Delete:
  assumes "store_inv bc" "Bitcask_Delete bc key ts = (None, bc')"
  shows "store_inv bc'"
proof -
  let ?rec = "recordBytes key [] ts True"
  from assms(2) have nc: "\<not> closed bc"
    by (auto simp add: Bitcask_Delete_def split: if_splits)
  from assms(1) have pos: "position bc = length (dataFile bc)"
    and ok: "index_ok (dataFile bc) (index bc)" by (simp_all add: store_inv_def)
  have bc': "bc' = bc\<lparr>totalWrites := totalWrites bc + 1,
                 dataFile := dataFile bc @ ?rec,
                 position := position bc + length ?rec,
                 index := snd (Index_Delete (index bc) key ts)\<rparr>"
    using assms(2) nc by (simp add: Bitcask_Delete_def writeEntry_def Let_def)
  have "index_ok (dataFile bc @ ?rec) (snd (Index_Delete (index bc) key ts))"
    by (rule index_ok_Delete[OF index_ok_append[OF ok]])
  then show ?thesis using pos by (simp add: bc' store_inv_def)
qed

lemma Bitcask_Get_state:
  "Bitcask_Get bc key = (res, bc') \<Longrightarrow>
   dataFile bc' = dataFile bc \<and> index bc' = index bc \<and> position bc' = position bc
   \<and> closed bc' = closed bc"
  by (auto simp add: Bitcask_Get_def Let_def split: if_splits option.splits sum.splits)

lemma store_inv_Get:
  assumes "store_inv bc" "Bitcask_Get bc key = (res, bc')"
  shows "store_inv bc'"
  using assms Bitcask_Get_state[OF assms(2)] by (simp add: store_inv_def)

lemma store_inv_Close:
  assumes "store_inv bc" "Bitcask_Close bc = (None, bc')"
  shows "store_inv bc'"
  using assms by (auto simp add: store_inv_def Bitcask_Close_def split: if_splits)

lemma rebuildIndex_loop_ok:
  assumes "index_ok fl idx" "rebuildIndex_loop fl off idx = Inr idx'"
  shows "index_ok fl idx'"
  using assms
proof (induction fl off idx rule: rebuildIndex_loop.induct)
  case (1 fl off idx)
  show ?case
  proof (cases "readEntry (drop off fl) off")
    case (Inl err)
    with 1(3) have "idx' = idx"
      by (subst (asm) rebuildIndex_loop.simps) (simp split: if_splits)
    then show ?thesis using 1(2) by simp
  next
    case (Inr p)
    obtain entry n where p: "p = (entry, n)" by (cases p)
    let ?idx1 = "if EntryIsDeleted entry
             then snd (Index_Delete idx (EntryKey entry) (EntryTimestamp entry))
             else Index_Put idx (EntryKey entry) off (EntrySize entry)
                    (EntryTimestamp entry)"
    have ra: "record_at fl off entry" using Inr p by (simp add: record_at_def)
    have ok1: "index_ok fl ?idx1"
      using index_ok_Delete[OF 1(2)] index_ok_Put[OF 1(2) ra refl] by simp
    have "rebuildIndex_loop fl (off + n) ?idx1 = Inr idx'"
      using 1(3) Inr p by (subst (asm) rebuildIndex_loop.simps) simp
    from 1(1)[OF Inr p[symmetric] ok1 this] show ?thesis .
  qed
qed

lemma store_inv_NewBitcask:
  assumes "NewBitcask fl sw = Inr bc"
  shows "store_inv bc \<and> \<not> closed bc \<and> dataFile bc = fl"
proof (cases "length fl > 0")
  case False
  then show ?thesis using assms
    by (auto simp add: NewBitcask_def store_inv_def index_ok_def NewIndex_def)
next
  case True
  let ?bc0 = "\<lparr>dataFile = fl, index = NewIndex, position = length fl, closed = False,
                syncWrite = sw, totalReads = 0, totalWrites = 0\<rparr>"
  from assms True obtain idx where
    r: "rebuildIndex_loop fl 0 NewIndex = Inr idx" and bc: "bc = ?bc0\<lparr>index := idx\<rparr>"
    by (auto simp add: NewBitcask_def rebuildIndex_def Let_def split: sum.splits)
  have "index_ok fl NewIndex" by (simp add: index_ok_def NewIndex_def)
  from rebuildIndex_loop_ok[OF this r] show ?thesis by (simp add: bc store_inv_def)
qed

lemma compacted_entry_append:
  "compacted_entry bc temp key e' \<Longrightarrow> compacted_entry bc (temp @ x) key e'"
  unfolding compacted_entry_def by (blast intro: record_at_append)

lemma Compact_loop_correct:
  assumes "index_ok (dataFile bc) (index bc)"
    and "\<forall>k e'. entries newIndex k = Some e' \<longrightarrow> compacted_entry bc temp k e'"
  shows "\<exists>temp' idx'. Compact_loop bc ks temp newIndex (length temp)
                         = Inr (temp', idx', length temp')
           \<and> dom (entries idx') = dom (entries newIndex) \<union> (set ks \<inter> live_keys (index bc))
           \<and> (\<forall>k e'. entries idx' k = Some e' \<longrightarrow> compacted_entry bc temp' k e')"
  using assms(2)
proof (induction ks arbitrary: temp newIndex)
  case Nil
  then show ?case by simp
next
  case (Cons key ks)
  show ?case
  proof (cases "entries (index bc) key")
    case None
    then have nl: "key \<notin> live_keys (index bc)" by (simp add: live_keys_def)
    from Cons.IH[OF Cons.prems] obtain temp' idx' where
      "Compact_loop bc ks temp newIndex (length temp) = Inr (temp', idx', length temp')"
      "dom (entries idx') = dom (entries newIndex) \<union> (set ks \<inter> live_keys (index bc))"
      "\<forall>k e'. entries idx' k = Some e' \<longrightarrow> compacted_entry bc temp' k e'"
      by blast
    then show ?thesis using None nl by auto
  next
    case (Some entry)
    show ?thesis
    proof (cases "EIsDeleted entry")
      case True
      then have nl: "key \<notin> live_keys (index bc)" using Some by (simp add: live_keys_def)
      from Cons.IH[OF Cons.prems] obtain temp' idx' where
        "Compact_loop bc ks temp newIndex (length temp) = Inr (temp', idx', length temp')"
        "dom (entries idx') = dom (entries newIndex) \<union> (set ks \<inter> live_keys (index bc))"
        "\<forall>k e'. entries idx' k = Some e' \<longrightarrow> compacted_entry bc temp' k e'"
        by blast
      then show ?thesis using Some True nl by auto
    next
      case False
      then have lv: "key \<in> live_keys (index bc)" using Some by (simp add: live_keys_def)
      from assms(1) Some False obtain re where
        re: "record_at (dataFile bc) (Offset entry) re" "EntryKey re = key"
        unfolding index_ok_def by blast
      from record_at_read[OF re(1)] obtain n where
        rd: "readEntry (drop (Offset entry) (dataFile bc)) (Offset entry) = Inr (re, n)"
        by blast
      let ?rec = "recordBytes key (EntryValue re) (EntryTimestamp re) False"
      let ?idx1 = "Index_Put newIndex key (length temp)
                     (of_nat (length (EntryValue re))) (EntryTimestamp re)"
      have ln: "length key < 2 ^ 32" "length (EntryValue re) < 2 ^ 32"
        using record_at_lengths[OF re(1)] re(2) by simp_all
      have new: "record_at (temp @ ?rec) (length temp)
                   \<lparr>EntryKey = key, EntryValue = EntryValue re,
                    EntryTimestamp = EntryTimestamp re, EntryIsDeleted = False,
                    EntryOffset = length temp,
                    EntrySize = of_nat (length (EntryValue re))\<rparr>"
        by (rule record_at_written[OF ln])
      have ce: "compacted_entry bc (temp @ ?rec) key
                  \<lparr>Offset = length temp, Size = of_nat (length (EntryValue re)),
                   ETimestamp = EntryTimestamp re, EIsDeleted = False\<rparr>"
        unfolding compacted_entry_def using Some False re(1) new by fastforce
      have pre: "\<forall>k e'. entries ?idx1 k = Some e' \<longrightarrow> compacted_entry bc (temp @ ?rec) k e'"
        using Cons.prems ce by (auto simp add: entries_Index_Put intro: compacted_entry_append)
      from Cons.IH[OF pre] obtain temp' idx' where
        ih: "Compact_loop bc ks (temp @ ?rec) ?idx1 (length (temp @ ?rec))
               = Inr (temp', idx', length temp')"
        "dom (entries idx') = dom (entries ?idx1) \<union> (set ks \<inter> live_keys (index bc))"
        "\<forall>k e'. entries idx' k = Some e' \<longrightarrow> compacted_entry bc temp' k e'"
        by blast
      have "Compact_loop bc (key # ks) temp newIndex (length temp)
            = Inr (temp', idx', length temp')"
        using Some False rd ih(1) by (simp add: Let_def)
      moreover have "dom (entries idx')
            = dom (entries newIndex) \<union> (set (key # ks) \<inter> live_keys (index bc))"
        using ih(2) lv by (auto simp add: entries_Index_Put)
      ultimately show ?thesis using ih(3) by blast
    qed
  qed
qed

lemma Compact_result:
  assumes "store_inv bc" "\<not> closed bc"
  shows "\<exists>bc'. Bitcask_Compact ord bc = (None, bc') \<and> store_inv bc' \<and> \<not> closed bc'
           \<and> dom (entries (index bc')) = set ord \<inter> live_keys (index bc)
           \<and> (\<forall>k e'. entries (index bc') k = Some e'
                 \<longrightarrow> compacted_entry bc (dataFile bc') k e')"
proof -
  from assms(1) have ok: "index_ok (dataFile bc) (index bc)" by (simp add: store_inv_def)
  have "\<forall>k e'. entries NewIndex k = Some e' \<longrightarrow> compacted_entry bc [] k e'"
    by (simp add: NewIndex_def)
  from Compact_loop_correct[OF ok this, of ord] obtain temp' idx' where
    l: "Compact_loop bc ord [] NewIndex 0 = Inr (temp', idx', length temp')"
    "dom (entries idx') = set ord \<inter> live_keys (index bc)"
    "\<forall>k e'. entries idx' k = Some e' \<longrightarrow> compacted_entry bc temp' k e'"
    by (auto simp add: NewIndex_def)
  let ?bc' = "bc\<lparr>dataFile := temp', index := idx', position := length temp'\<rparr>"
  have c: "Bitcask_Compact ord bc = (None, ?bc')"
    using assms(2) l(1) by (simp add: Bitcask_Compact_def)
  have "index_ok temp' idx'"
    unfolding index_ok_def using l(3) unfolding compacted_entry_def by blast
  then have "store_inv ?bc'" by (simp add: store_inv_def)
  then show ?thesis using c l(2,3) assms(2) by auto
qed

lemma reachable_inv: "reachable bc \<Longrightarrow> store_inv bc"
proof (induction rule: reachable.induct)
  case (fresh sw bc)
  then show ?case using store_inv_NewBitcask by blast
next
  case (put bc key val timestamp bc')
  then show ?case using store_inv_Put by blast
next
  case (delete bc key timestamp bc')
  then show ?case using store_inv_Delete by blast
next
  case (get bc key res bc')
  then show ?case using store_inv_Get by blast
next
  case (compact bc ord bc')
  from compact(3) have "\<not> closed bc"
    by (auto simp add: Bitcask_Compact_def split: if_splits)
  from Compact_result[OF compact.IH this, of ord] compact(3) show ?case by auto
next
  case (close bc bc')
  then show ?case using store_inv_Close by blast
next
  case (reopen bc sw bc')
  then show ?case using store_inv_NewBitcask by blast
qed

lemma Get_live:
  assumes "\<not> closed bc" "entries (index bc) key = Some e" "\<not> EIsDeleted e"
    and "record_at (dataFile bc) (Offset e) re"
  shows "fst (Bitcask_Get bc key) = Inr (EntryValue re, EntryTimestamp re)"
proof -
  from record_at_read[OF assms(4)] obtain n where
    "readEntry (drop (Offset e) (dataFile bc)) (Offset e) = Inr (re, n)" by blast
  then show ?thesis using assms(1-3)
    by (simp add: Bitcask_Get_def Index_Get_def Let_def)
qed

lemma active_Index_Put: "active idx \<le> active (Index_Put idx key off sz ts)"
  by (simp add: Index_Put_def Let_def split: option.splits)

lemma Compact_loop_file:
  assumes "\<not> closed bc"
    and "Compact_loop bc ks temp newIndex pos = Inr (temp', idx', pos')"
  shows "temp' = temp @ concat (map (compacted_record bc) (filter (Index_Has (index bc)) ks))
         \<and> active newIndex \<le> active idx'"
  using assms(2)
proof (induction ks arbitrary: temp newIndex pos)
  case Nil
  then show ?case by simp
next
  case (Cons key ks)
  show ?case
  proof (cases "entries (index bc) key")
    case None
    then show ?thesis using Cons.IH[of temp newIndex pos] Cons.prems
      by (simp add: Index_Has_def)
  next
    case (Some entry)
    show ?thesis
    proof (cases "EIsDeleted entry")
      case True
      then show ?thesis using Some Cons.IH[of temp newIndex pos] Cons.prems
        by (simp add: Index_Has_def)
    next
      case False
      show ?thesis
      proof (cases "readEntry (drop (Offset entry) (dataFile bc)) (Offset entry)")
        case (Inl err)
        then show ?thesis using Some False Cons.prems by simp
      next
        case (Inr p)
        obtain readE n where p: "p = (readE, n)" by (cases p)
        let ?rec = "recordBytes key (EntryValue readE) (EntryTimestamp readE) False"
        let ?idx1 = "Index_Put newIndex key pos (of_nat (length (EntryValue readE)))
                       (EntryTimestamp readE)"
        have cr: "compacted_record bc key = ?rec"
          using assms(1) Some False Inr p
          by (simp add: compacted_record_def Bitcask_Get_def Index_Get_def Let_def)
        have has: "Index_Has (index bc) key" using Some False by (simp add: Index_Has_def)
        have "Compact_loop bc ks (temp @ ?rec) ?idx1 (pos + length ?rec)
              = Inr (temp', idx', pos')"
          using Cons.prems Some False Inr p by (simp add: Let_def)
        from Cons.IH[OF this] have
          t: "temp' = (temp @ ?rec)
                @ concat (map (compacted_record bc) (filter (Index_Has (index bc)) ks))"
          and a: "active ?idx1 \<le> active idx'" by simp_all
        have "active newIndex \<le> active idx'"
          using a active_Index_Put[of newIndex key pos "of_nat (length (EntryValue readE))"
                  "EntryTimestamp readE"] by simp
        then show ?thesis using t has cr by simp
      qed
    qed
  qed
qed

lemma readEntry_end: "readEntry [] off = Inl EOF"
  by (simp add: readEntry_def ReadFull_def headerSize_def)

lemma scan_entries_records:
  assumes "\<forall>k\<in>set ks. length k < 2 ^ 32 \<and> length (val k) < 2 ^ 32"
  shows "\<exists>es. scan_entries
                (pre @ concat (map (\<lambda>k. recordBytes k (val k) (ts k) False) ks)) (length pre)
              = Inr es
           \<and> map EntryKey es = ks
           \<and> (\<forall>e\<in>set es. \<not> EntryIsDeleted e \<and> EntryValue e = val (EntryKey e)
                          \<and> EntryTimestamp e = ts (EntryKey e))"
  using assms
proof (induction ks arbitrary: pre)
  case Nil
  have "scan_entries pre (length pre) = Inr []"
    by (subst scan_entries.simps) (simp add: readEntry_end)
  then show ?case by simp
next
  case (Cons k ks)
  let ?rec = "recordBytes k (val k) (ts k) False"
  let ?rest = "concat (map (\<lambda>k. recordBytes k (val k) (ts k) False) ks)"
  let ?fl = "pre @ concat (map (\<lambda>k. recordBytes k (val k) (ts k) False) (k # ks))"
  let ?e = "\<lparr>EntryKey = k, EntryValue = val k, EntryTimestamp = ts k,
             EntryIsDeleted = False, EntryOffset = length pre,
             EntrySize = of_nat (length (val k))\<rparr>"
  from Cons.prems have ln: "length k < 2 ^ 32" "length (val k) < 2 ^ 32"
    and rest: "\<forall>k\<in>set ks. length k < 2 ^ 32 \<and> length (val k) < 2 ^ 32" by simp_all
  have fl: "?fl = (pre @ ?rec) @ ?rest" by simp
  have d: "drop (length pre) ?fl = ?rec @ ?rest" by simp
  have r: "readEntry (drop (length pre) ?fl) (length pre)
           = Inr (?e, 21 + length k + length (val k))"
    unfolding d by (rule readEntry_recordBytes[OF ln])
  have n: "length pre + (21 + length k + length (val k)) = length (pre @ ?rec)"
    by (simp add: length_recordBytes)
  from Cons.IH[OF rest, of "pre @ ?rec"] obtain es where
    es: "scan_entries ((pre @ ?rec) @ ?rest) (length (pre @ ?rec)) = Inr es"
    "map EntryKey es = ks"
    "\<forall>e\<in>set es. \<not> EntryIsDeleted e \<and> EntryValue e = val (EntryKey e)
                  \<and> EntryTimestamp e = ts (EntryKey e)"
    by blast
  have "scan_entries ?fl (length pre) = Inr (?e # es)"
    by (subst scan_entries.simps) (simp only: r n sum.case prod.case, simp only: fl es(1), simp)
  then show ?case using es(2,3) by simp
qed

lemma live_record:
  assumes "store_inv bc" "\<not> closed bc" "Index_Has (index bc) key"
  shows "\<exists>v t. fst (Bitcask_Get bc key) = Inr (v, t)
           \<and> length key < 2 ^ 32 \<and> length v < 2 ^ 32"
proof -
  from assms(3) obtain e where e: "entries (index bc) key = Some e" "\<not> EIsDeleted e"
    by (auto simp add: Index_Has_def split: option.splits)
  from assms(1) e obtain re where
    re: "record_at (dataFile bc) (Offset e) re" "EntryKey re = key"
    unfolding store_inv_def index_ok_def by blast
  have "fst (Bitcask_Get bc key) = Inr (EntryValue re, EntryTimestamp re)"
    by (rule Get_live[OF assms(2) e re(1)])
  then show ?thesis using record_at_lengths[OF re(1)] re(2) by auto
qed

lemma compacted_file_scan:
  assumes "store_inv bc" "\<not> closed bc"
  shows "\<exists>es. scan_entries
                (concat (map (compacted_record bc) (filter (Index_Has (index bc)) ord))) 0
              = Inr es
           \<and> map EntryKey es = filter (Index_Has (index bc)) ord
           \<and> (\<forall>e\<in>set es. \<not> EntryIsDeleted e
                 \<and> fst (Bitcask_Get bc (EntryKey e)) = Inr (EntryValue e, EntryTimestamp e))"
proof -
  let ?ks = "filter (Index_Has (index bc)) ord"
  define val where "val = (\<lambda>k. fst (projr (fst (Bitcask_Get bc k))))"
  define ts where "ts = (\<lambda>k. snd (projr (fst (Bitcask_Get bc k))))"
  have g: "fst (Bitcask_Get bc k) = Inr (val k, ts k) \<and> length k < 2 ^ 32
           \<and> length (val k) < 2 ^ 32" if "k \<in> set ?ks" for k
  proof -
    from that have "Index_Has (index bc) k" by simp
    from live_record[OF assms this] show ?thesis by (auto simp add: val_def ts_def)
  qed
  have m: "map (compacted_record bc) ?ks = map (\<lambda>k. recordBytes k (val k) (ts k) False) ?ks"
  proof (rule map_cong[OF refl])
    fix k assume "k \<in> set ?ks"
    from g[OF this] show "compacted_record bc k = recordBytes k (val k) (ts k) False"
      by (simp add: compacted_record_def)
  qed
  have "\<forall>k\<in>set ?ks. length k < 2 ^ 32 \<and> length (val k) < 2 ^ 32" using g by blast
  from scan_entries_records[OF this, of "[]" ts] obtain es where
    es: "scan_entries (concat (map (\<lambda>k. recordBytes k (val k) (ts k) False) ?ks)) 0 = Inr es"
    "map EntryKey es = ?ks"
    "\<forall>e\<in>set es. \<not> EntryIsDeleted e \<and> EntryValue e = val (EntryKey e)
                  \<and> EntryTimestamp e = ts (EntryKey e)"
    by auto
  have q: "fst (Bitcask_Get bc (EntryKey e)) = Inr (EntryValue e, EntryTimestamp e)"
    if "e \<in> set es" for e
  proof -
    from that have "EntryKey e \<in> set (map EntryKey es)" by simp
    then have "EntryKey e \<in> set ?ks" using es(2) by simp
    from g[OF this] es(3) that show ?thesis by simp
  qed
  have s1: "scan_entries (concat (map (compacted_record bc) ?ks)) 0 = Inr es"
    using es(1) by (simp only: m)
  have s3: "\<forall>e\<in>set es. \<not> EntryIsDeleted e
              \<and> fst (Bitcask_Get bc (EntryKey e)) = Inr (EntryValue e, EntryTimestamp e)"
    using q es(3) by blast
  show ?thesis using s1 es(2) s3 by blast
qed

lemma Compact_file:
  assumes "\<not> closed bc" "Bitcask_Compact ord bc = (None, bc')"
  shows "dataFile bc'
           = concat (map (compacted_record bc) (filter (Index_Has (index bc)) ord))
         \<and> 0 \<le> active (index bc')"
proof -
  from assms obtain temp idx pos where
    l: "Compact_loop bc ord [] NewIndex 0 = Inr (temp, idx, pos)"
    and bc': "bc' = bc\<lparr>dataFile := temp, index := idx, position := pos\<rparr>"
    by (auto simp add: Bitcask_Compact_def split: sum.splits)
  from Compact_loop_file[OF assms(1) l] show ?thesis by (simp add: bc' NewIndex_def)
qed

text \<open>
  Claim C7.  In every reachable state of an open store, compaction (in any iteration order
  of the index) succeeds; afterwards \<open>Get\<close> on every key that was live returns the value and
  timestamp it returned before, and a key that was tombstoned is in no entry of the new
  index: \<open>Get\<close> answers \<open>ErrKeyNotFound\<close>, \<open>Has\<close> is false and \<open>Keys\<close> returns a list without it.
  The new index has no tombstone at all, and every one of its entries points at a record of
  the rewritten file that is not a tombstone.  The data file is rewritten: its new content
  is, in the iteration order, one record for each key that was live, and the write position
  is its length.  Read from its start to its end, the new file holds exactly one record for
  each key that was live and no other; none is a tombstone, and each carries the value and
  the timestamp that \<open>Get\<close> returned for its key before the compaction.
\<close>

theorem compact_preserves:
  assumes "reachable bc" "\<not> closed bc" "enumerates ord (index bc)"
  shows "\<exists>bc'. Bitcask_Compact ord bc = (None, bc')
           \<and> (\<forall>key\<in>live_keys (index bc).
                 \<exists>val ts. fst (Bitcask_Get bc key) = Inr (val, ts)
                          \<and> fst (Bitcask_Get bc' key) = Inr (val, ts)
                          \<and> Bitcask_Has bc' key)
           \<and> (\<forall>key\<in>tombstone_keys (index bc).
                 fst (Bitcask_Get bc' key) = Inl ErrKeyNotFound
                 \<and> \<not> Bitcask_Has bc' key
                 \<and> (\<forall>ord'. \<exists>ks. Bitcask_Keys ord' bc' = Inr ks \<and> key \<notin> set ks))
           \<and> tombstone_keys (index bc') = {}
           \<and> (\<forall>key e. entries (index bc') key = Some e \<longrightarrow>
                 (\<exists>re. record_at (dataFile bc') (Offset e) re \<and> EntryKey re = key
                       \<and> \<not> EntryIsDeleted re))
           \<and> dataFile bc'
               = concat (map (compacted_record bc) (filter (Index_Has (index bc)) ord))
           \<and> position bc' = length (dataFile bc')
           \<and> (\<exists>es. scan_entries (dataFile bc') 0 = Inr es
                 \<and> map EntryKey es = filter (Index_Has (index bc)) ord
                 \<and> (\<forall>e\<in>set es. \<not> EntryIsDeleted e
                       \<and> fst (Bitcask_Get bc (EntryKey e))
                           = Inr (EntryValue e, EntryTimestamp e)))"
proof -
  have inv: "store_inv bc" by (rule reachable_inv[OF assms(1)])
  from Compact_result[OF inv assms(2), of ord] obtain bc' where
    c: "Bitcask_Compact ord bc = (None, bc')" and nc: "\<not> closed bc'"
    and inv': "store_inv bc'"
    and d: "dom (entries (index bc')) = set ord \<inter> live_keys (index bc)"
    and ce: "\<forall>k e'. entries (index bc') k = Some e'
                 \<longrightarrow> compacted_entry bc (dataFile bc') k e'"
    by blast
  from Compact_file[OF assms(2) c] have
    fl: "dataFile bc'
           = concat (map (compacted_record bc) (filter (Index_Has (index bc)) ord))"
    and act: "0 \<le> active (index bc')" by simp_all
  have pos: "position bc' = length (dataFile bc')" using inv' by (simp add: store_inv_def)
  have so: "set ord = dom (entries (index bc))" using assms(3) by (simp add: enumerates_def)
  have live: "\<exists>val ts. fst (Bitcask_Get bc key) = Inr (val, ts)
                          \<and> fst (Bitcask_Get bc' key) = Inr (val, ts)
                          \<and> Bitcask_Has bc' key"
    if "key \<in> live_keys (index bc)" for key
  proof -
    from that have "key \<in> set ord" using so by (auto simp add: live_keys_def)
    with that d obtain e' where e': "entries (index bc') key = Some e'" by blast
    with ce have "compacted_entry bc (dataFile bc') key e'" by blast
    then obtain e re re' where x: "\<not> EIsDeleted e'" "entries (index bc) key = Some e"
      "\<not> EIsDeleted e" "record_at (dataFile bc) (Offset e) re"
      "record_at (dataFile bc') (Offset e') re'" "EntryValue re' = EntryValue re"
      "EntryTimestamp re' = EntryTimestamp re"
      unfolding compacted_entry_def by blast
    have "fst (Bitcask_Get bc key) = Inr (EntryValue re, EntryTimestamp re)"
      by (rule Get_live[OF assms(2) x(2,3,4)])
    moreover have "fst (Bitcask_Get bc' key) = Inr (EntryValue re, EntryTimestamp re)"
      using Get_live[OF nc e' x(1,5)] x(6,7) by simp
    moreover have "Bitcask_Has bc' key"
      using nc e' x(1) by (simp add: Bitcask_Has_def Index_Has_def)
    ultimately show ?thesis by blast
  qed
  have dead: "fst (Bitcask_Get bc' key) = Inl ErrKeyNotFound
                 \<and> \<not> Bitcask_Has bc' key
                 \<and> (\<forall>ord'. \<exists>ks. Bitcask_Keys ord' bc' = Inr ks \<and> key \<notin> set ks)"
    if "key \<in> tombstone_keys (index bc)" for key
  proof -
    from that have "key \<notin> live_keys (index bc)"
      by (auto simp add: live_keys_def tombstone_keys_def)
    then have "entries (index bc') key = None" using d by blast
    then show ?thesis using nc act
      by (simp add: Bitcask_Get_def Index_Get_def Let_def Bitcask_Has_def Index_Has_def
          Bitcask_Keys_def Index_Keys_def)
  qed
  have nt: "tombstone_keys (index bc') = {}"
    using ce unfolding compacted_entry_def tombstone_keys_def by blast
  have recs: "\<exists>re. record_at (dataFile bc') (Offset e) re \<and> EntryKey re = key
                       \<and> \<not> EntryIsDeleted re"
    if "entries (index bc') key = Some e" for key e
  proof -
    from that ce have "compacted_entry bc (dataFile bc') key e" by blast
    then show ?thesis unfolding compacted_entry_def by blast
  qed
  have sc: "\<exists>es. scan_entries (dataFile bc') 0 = Inr es
                 \<and> map EntryKey es = filter (Index_Has (index bc)) ord
                 \<and> (\<forall>e\<in>set es. \<not> EntryIsDeleted e
                       \<and> fst (Bitcask_Get bc (EntryKey e))
                           = Inr (EntryValue e, EntryTimestamp e))"
    unfolding fl by (rule compacted_file_scan[OF inv assms(2)])
  show ?thesis using c live dead nt recs fl pos sc by blast
qed


lemma Bitcask_Put_open:
  "\<not> closed bc \<Longrightarrow> Bitcask_Put bc key val ts = (None, snd (Bitcask_Put bc key val ts))
     \<and> \<not> closed (snd (Bitcask_Put bc key val ts))"
  by (simp add: Bitcask_Put_def writeEntry_def Let_def)

lemma Bitcask_Delete_open:
  "\<not> closed bc \<Longrightarrow> Bitcask_Delete bc key ts = (None, snd (Bitcask_Delete bc key ts))
     \<and> \<not> closed (snd (Bitcask_Delete bc key ts))"
  by (simp add: Bitcask_Delete_def writeEntry_def Let_def)

lemma example_store_reachable: "reachable example_store \<and> \<not> closed example_store"
proof -
  let ?b0 = "\<lparr>dataFile = [], index = NewIndex, position = 0, closed = False,
            syncWrite = False, totalReads = 0, totalWrites = 0\<rparr>"
  let ?b1 = "snd (Bitcask_Put ?b0 [1] [2] 1)"
  let ?b2 = "snd (Bitcask_Put ?b1 [3] [4] 2)"
  let ?b3 = "snd (Bitcask_Delete ?b2 [3] 3)"
  have r0: "reachable ?b0" by (rule reachable.fresh[of False]) (simp add: NewBitcask_def)
  have c0: "\<not> closed ?b0" by simp
  have p0: "Bitcask_Put ?b0 [1] [2] 1 = (None, ?b1)" and c1: "\<not> closed ?b1"
    using Bitcask_Put_open[OF c0] by blast+
  have r1: "reachable ?b1" by (rule reachable.put[OF r0 _ _ p0]) simp_all
  have p1: "Bitcask_Put ?b1 [3] [4] 2 = (None, ?b2)" and c2: "\<not> closed ?b2"
    using Bitcask_Put_open[OF c1] by blast+
  have r2: "reachable ?b2" by (rule reachable.put[OF r1 _ _ p1]) simp_all
  have p2: "Bitcask_Delete ?b2 [3] 3 = (None, ?b3)" and c3: "\<not> closed ?b3"
    using Bitcask_Delete_open[OF c2] by blast+
  have r3: "reachable ?b3" by (rule reachable.delete[OF r2 _ p2]) simp
  show ?thesis unfolding example_store_def using r3 c3 by blast
qed

lemma example_store_entries:
  "entries (index example_store)
   = [[1] \<mapsto> \<lparr>Offset = 0, Size = 1, ETimestamp = 1, EIsDeleted = False\<rparr>,
      [3] \<mapsto> \<lparr>Offset = length (recordBytes [1] [2] 1 False), Size = 1,
               ETimestamp = 3, EIsDeleted = True\<rparr>]"
  by (simp add: example_store_def Bitcask_Put_def Bitcask_Delete_def writeEntry_def Let_def
      Index_Put_def Index_Delete_def NewIndex_def)

lemma example_store_file:
  "dataFile example_store
   = recordBytes [1] [2] 1 False @ recordBytes [3] [4] 2 False @ recordBytes [3] [] 3 True"
  by (simp add: example_store_def Bitcask_Put_def Bitcask_Delete_def writeEntry_def Let_def)

lemma example_store_Get: "fst (Bitcask_Get example_store [1]) = Inr ([2], 1)"
proof -
  have r: "record_at (dataFile example_store) 0
             \<lparr>EntryKey = [1], EntryValue = [2], EntryTimestamp = 1, EntryIsDeleted = False,
              EntryOffset = 0, EntrySize = of_nat (length [2 :: byte])\<rparr>"
    unfolding example_store_file record_at_def
    using readEntry_recordBytes[of "[1]" "[2]" 1 False
            "recordBytes [3] [4] 2 False @ recordBytes [3] [] 3 True" 0]
    by simp
  have e: "entries (index example_store) [1]
           = Some \<lparr>Offset = 0, Size = 1, ETimestamp = 1, EIsDeleted = False\<rparr>"
    by (simp add: example_store_entries)
  from Get_live[of example_store "[1]", OF _ e _] r example_store_reachable
  show ?thesis by simp
qed

theorem compact_preserves_witness:
  "\<exists>bc'. Bitcask_Compact [[1], [3]] example_store = (None, bc')
     \<and> (\<exists>val ts. fst (Bitcask_Get example_store [1]) = Inr (val, ts)
                  \<and> fst (Bitcask_Get bc' [1]) = Inr (val, ts))
     \<and> fst (Bitcask_Get bc' [3]) = Inl ErrKeyNotFound
     \<and> \<not> Bitcask_Has bc' [3]
     \<and> (\<exists>ks. Bitcask_Keys [[1], [3]] bc' = Inr ks \<and> [3] \<notin> set ks)
     \<and> dataFile bc' = recordBytes [1] [2] 1 False
     \<and> position bc' = 23"
proof -
  note e = example_store_entries
  have en: "enumerates [[1], [3]] (index example_store)"
    by (auto simp add: enumerates_def e)
  have l: "[1] \<in> live_keys (index example_store)"
    by (simp add: live_keys_def e)
  have t: "[3] \<in> tombstone_keys (index example_store)"
    by (simp add: tombstone_keys_def e)
  have f: "concat (map (compacted_record example_store)
             (filter (Index_Has (index example_store)) [[1], [3]]))
           = recordBytes [1] [2] 1 False"
    by (simp add: Index_Has_def e compacted_record_def example_store_Get)
  have n: "length (recordBytes [1] [2] 1 False) = 23" by (simp add: length_recordBytes)
  from compact_preserves [of example_store "[[1], [3]]"] example_store_reachable en
  obtain bc' where b: "Bitcask_Compact [[1], [3]] example_store = (None, bc')"
    "\<forall>key\<in>live_keys (index example_store).
       \<exists>val ts. fst (Bitcask_Get example_store key) = Inr (val, ts)
                \<and> fst (Bitcask_Get bc' key) = Inr (val, ts) \<and> Bitcask_Has bc' key"
    "\<forall>key\<in>tombstone_keys (index example_store).
       fst (Bitcask_Get bc' key) = Inl ErrKeyNotFound \<and> \<not> Bitcask_Has bc' key
       \<and> (\<forall>ord'. \<exists>ks. Bitcask_Keys ord' bc' = Inr ks \<and> key \<notin> set ks)"
    "dataFile bc' = concat (map (compacted_record example_store)
                      (filter (Index_Has (index example_store)) [[1], [3]]))"
    "position bc' = length (dataFile bc')"
    by blast
  from b(2) l have "\<exists>val ts. fst (Bitcask_Get example_store [1]) = Inr (val, ts)
                  \<and> fst (Bitcask_Get bc' [1]) = Inr (val, ts)" by blast
  moreover from b(3) t have "fst (Bitcask_Get bc' [3]) = Inl ErrKeyNotFound"
    "\<not> Bitcask_Has bc' [3]"
    "\<exists>ks. Bitcask_Keys [[1], [3]] bc' = Inr ks \<and> [3] \<notin> set ks" by blast+
  moreover have "dataFile bc' = recordBytes [1] [2] 1 False" using b(4) f by simp
  moreover have "position bc' = 23" using b(4,5) f n by simp
  ultimately show ?thesis using b(1) by blast
qed

section \<open>The log store: recovery from a corrupt record\<close>

lemma scan_to_rebuild:
  assumes "scan_to fl off target"
    and "readEntry (drop target fl) target = Inl ErrCorruptData"
  shows "rebuildIndex_loop fl off idx = Inl (WrappedAt target ErrCorruptData)"
  using assms
proof (induction fl off target arbitrary: idx rule: scan_to.induct)
  case (1 fl off target)
  note bad = 1(3)
  show ?case
  proof (cases "off = target")
    case True
    have "rebuildIndex_loop fl target idx = Inl (WrappedAt target ErrCorruptData)"
      by (subst rebuildIndex_loop.simps) (simp add: bad)
    then show ?thesis using True by simp
  next
    case False
    from 1(2) False have nl: "\<not> target < off"
      by (subst (asm) scan_to.simps) (simp split: if_splits)
    from 1(2) False nl obtain entry n where
      r: "readEntry (drop off fl) off = Inr (entry, n)" and s: "scan_to fl (off + n) target"
      by (subst (asm) scan_to.simps) (auto split: sum.splits)
    have "rebuildIndex_loop fl (off + n) idx' = Inl (WrappedAt target ErrCorruptData)" for idx'
      by (rule 1(1)[OF False nl r refl s bad])
    then show ?thesis using r by (subst rebuildIndex_loop.simps) simp
  qed
qed

lemma corrupt_zero_header: "readEntry (replicate 21 0) 23 = Inl ErrCorruptData"
  by code_simp

lemma NewBitcask_corrupt:
  assumes "valid_prefix fl target"
    and "readEntry (drop target fl) target = Inl ErrCorruptData"
  shows "NewBitcask fl sw
         = Inl (Wrapped ''failed to rebuild index'' (WrappedAt target ErrCorruptData))"
proof -
  have "fl \<noteq> []"
  proof
    assume "fl = []"
    then have "readEntry (drop target fl) target = Inl EOF"
      by (simp add: readEntry_def ReadFull_def headerSize_def)
    with assms(2) show False by simp
  qed
  moreover have "rebuildIndex_loop fl 0 NewIndex = Inl (WrappedAt target ErrCorruptData)"
    using scan_to_rebuild[OF _ assms(2), of 0 NewIndex] assms(1)
    by (simp add: valid_prefix_def)
  ultimately show ?thesis by (simp add: NewBitcask_def rebuildIndex_def Let_def)
qed

lemma torn_file_prefix:
  "valid_prefix torn_file 23
   \<and> readEntry (drop 23 torn_file) 23 = Inl ErrCorruptData"
proof -
  have l: "length (recordBytes [1] [2] 1 False) = 23" by (simp add: length_recordBytes)
  have r: "readEntry (drop 0 torn_file) 0
           = Inr (\<lparr>EntryKey = [1], EntryValue = [2], EntryTimestamp = 1,
                    EntryIsDeleted = False, EntryOffset = 0, EntrySize = 1\<rparr>, 23)"
    using readEntry_recordBytes[of "[1]" "[2]" 1 False "replicate 21 0" 0]
    by (simp add: torn_file_def)
  have "scan_to torn_file 23 23" by (subst scan_to.simps) simp
  then have "scan_to torn_file 0 23" using r by (subst scan_to.simps) simp
  moreover have "drop 23 torn_file = replicate 21 0" using l by (simp add: torn_file_def)
  ultimately show ?thesis using corrupt_zero_header by (simp add: valid_prefix_def)
qed

text \<open>
  Claim C3 says that a data file with a valid prefix and a record failing the checksum at
  offset \<open>o\<close> opens successfully after a truncation to \<open>o\<close>.  On the file \<open>torn_file\<close> (one
  valid record, then a header with a wrong checksum at offset 23) \<open>NewBitcask\<close> returns an
  error and no store: \<open>rebuildIndex\<close> returns every error but \<open>io.EOF\<close>.
\<close>

theorem open_torn_file_fails:
  "valid_prefix torn_file 23
   \<and> readEntry (drop 23 torn_file) 23 = Inl ErrCorruptData
   \<and> NewBitcask torn_file False
       = Inl (Wrapped ''failed to rebuild index'' (WrappedAt 23 ErrCorruptData))"
proof -
  have r: "readEntry (drop 0 torn_file) 0
           = Inr (\<lparr>EntryKey = [1], EntryValue = [2], EntryTimestamp = 1,
                    EntryIsDeleted = False, EntryOffset = 0, EntrySize = 1\<rparr>, 23)"
    using readEntry_recordBytes[of "[1]" "[2]" 1 False "replicate 21 0" 0]
    by (simp add: torn_file_def)
  have c: "readEntry (drop 23 torn_file) 23 = Inl ErrCorruptData"
    using torn_file_prefix by blast
  have "rebuildIndex_loop torn_file 23 idx = Inl (WrappedAt 23 ErrCorruptData)" for idx
    by (subst rebuildIndex_loop.simps) (simp add: c)
  then have "rebuildIndex_loop torn_file 0 NewIndex = Inl (WrappedAt 23 ErrCorruptData)"
    using r by (subst rebuildIndex_loop.simps) simp
  moreover have "length torn_file > 0" by (simp add: torn_file_def)
  ultimately have "NewBitcask torn_file False
       = Inl (Wrapped ''failed to rebuild index'' (WrappedAt 23 ErrCorruptData))"
    by (simp add: NewBitcask_def rebuildIndex_def Let_def)
  then show ?thesis using torn_file_prefix by blast
qed

text \<open>
  Claim C3 as the code has it.  When the prefix of the data file up to offset \<open>o\<close> parses as
  valid records and the bytes at \<open>o\<close> fail the checksum, opening the store fails with the
  error "failed to rebuild index: error at offset o: data corruption detected", and no
  store is returned.
\<close>

theorem open_corrupt_fails:
  assumes "valid_prefix file target"
    and "readEntry (drop target file) target = Inl ErrCorruptData"
  shows "NewBitcask file sw
         = Inl (Wrapped ''failed to rebuild index'' (WrappedAt target ErrCorruptData))"
  using assms by (rule NewBitcask_corrupt)

theorem open_corrupt_fails_witness:
  "NewBitcask torn_file True
   = Inl (Wrapped ''failed to rebuild index'' (WrappedAt 23 ErrCorruptData))"
  using open_corrupt_fails [of torn_file 23 True] torn_file_prefix by blast

section \<open>The coordinator: reads\<close>

lemma insert_left_nonempty: "insert_left lt ys x \<noteq> []"
  by (cases ys) auto

lemma insert_left_set: "set (insert_left lt ys x) = insert x (set ys)"
  by (induction ys) auto

lemma insert_left_last:
  "last (insert_left lt ys x) = (if \<forall>y\<in>set ys. lt x y then x else last ys)"
proof (induction ys)
  case Nil
  show ?case by simp
next
  case (Cons y ys)
  show ?case
  proof (cases "lt x y")
    case True
    have "last (insert_left lt (y # ys) x) = last (insert_left lt ys x)"
      using True by (simp add: insert_left_nonempty)
    also have "\<dots> = (if \<forall>z\<in>set ys. lt x z then x else last ys)" by (rule Cons.IH)
    also have "\<dots> = (if \<forall>z\<in>set (y # ys). lt x z then x else last (y # ys))"
      using True by auto
    finally show ?thesis .
  next
    case False
    then show ?thesis by auto
  qed
qed

lemma foldl_insert_left_last:
  assumes "acc \<noteq> []"
    and "\<forall>y\<in>set acc. sint (Timestamp y) \<le> sint (Timestamp (last acc))"
  shows "foldl (insert_left (\<lambda>a b. sint (Timestamp b) < sint (Timestamp a))) acc xs \<noteq> []
         \<and> last (foldl (insert_left (\<lambda>a b. sint (Timestamp b) < sint (Timestamp a))) acc xs)
           = first_max (last acc) xs"
  using assms
proof (induction xs arbitrary: acc)
  case Nil
  then show ?case by simp
next
  case (Cons x xs)
  let ?lt = "\<lambda>a b. sint (Timestamp b) < sint (Timestamp (a :: KeyValueEntry))"
  let ?acc' = "insert_left ?lt acc x"
  have la: "last acc \<in> set acc" using Cons.prems(1) by simp
  have all: "(\<forall>y\<in>set acc. sint (Timestamp y) < sint (Timestamp x))
             \<longleftrightarrow> sint (Timestamp (last acc)) < sint (Timestamp x)"
    using la Cons.prems(2) by force
  have l: "last ?acc' = (if sint (Timestamp (last acc)) < sint (Timestamp x) then x
                         else last acc)"
    by (simp only: insert_left_last all)
  have m: "\<forall>y\<in>set ?acc'. sint (Timestamp y) \<le> sint (Timestamp (last ?acc'))"
    using Cons.prems(2) by (auto simp add: l insert_left_set)
  from Cons.IH[OF insert_left_nonempty m] show ?case by (simp add: l)
qed

lemma sort_Slice_head:
  "sort_Slice (\<lambda>a b. sint (Timestamp b) < sint (Timestamp a)) (x # xs)
   = first_max x xs # tl (sort_Slice (\<lambda>a b. sint (Timestamp b) < sint (Timestamp a)) (x # xs))"
proof -
  let ?lt = "\<lambda>a b. sint (Timestamp b) < sint (Timestamp (a :: KeyValueEntry))"
  let ?f = "foldl (insert_left ?lt) [x] xs"
  have f: "?f \<noteq> [] \<and> last ?f = first_max x xs"
    using foldl_insert_left_last[of "[x]" xs] by simp
  then have "rev ?f \<noteq> []" "hd (rev ?f) = first_max x xs" by (simp_all add: hd_rev)
  then have r: "rev ?f = first_max x xs # tl (rev ?f)" using hd_Cons_tl[of "rev ?f"] by simp
  have e: "sort_Slice ?lt (x # xs) = rev ?f" by (simp add: sort_Slice_def)
  show ?thesis unfolding e by (rule r)
qed

lemma first_max_split:
  "\<exists>pre post. w # es = pre @ first_max w es # post
     \<and> (\<forall>e\<in>set pre. sint (Timestamp e) < sint (Timestamp (first_max w es)))
     \<and> (\<forall>e\<in>set post. sint (Timestamp e) \<le> sint (Timestamp (first_max w es)))"
proof (induction es arbitrary: w)
  case Nil
  have "w # [] = [] @ first_max w [] # []" by simp
  then show ?case by fastforce
next
  case (Cons e es)
  show ?case
  proof (cases "sint (Timestamp w) < sint (Timestamp e)")
    case True
    then have fm: "first_max w (e # es) = first_max e es" by simp
    from Cons[of e] obtain pre post where
      s: "e # es = pre @ first_max e es # post"
      and b: "\<forall>x\<in>set pre. sint (Timestamp x) < sint (Timestamp (first_max e es))"
      and a: "\<forall>x\<in>set post. sint (Timestamp x) \<le> sint (Timestamp (first_max e es))"
      by blast
    have "e \<in> set (pre @ first_max e es # post)" by (subst s[symmetric]) simp
    then have em: "sint (Timestamp e) \<le> sint (Timestamp (first_max e es))"
      using a b by fastforce
    have 1: "w # e # es = (w # pre) @ first_max e es # post"
      by (subst s) simp
    have 2: "\<forall>x\<in>set (w # pre). sint (Timestamp x) < sint (Timestamp (first_max e es))"
      using b em True by fastforce
    show ?thesis unfolding fm using 1 2 a by blast
  next
    case False
    then have fm: "first_max w (e # es) = first_max w es" by simp
    from Cons[of w] obtain pre post where
      s: "w # es = pre @ first_max w es # post"
      and b: "\<forall>x\<in>set pre. sint (Timestamp x) < sint (Timestamp (first_max w es))"
      and a: "\<forall>x\<in>set post. sint (Timestamp x) \<le> sint (Timestamp (first_max w es))"
      by blast
    show ?thesis
    proof (cases pre)
      case Nil
      have eq: "w # es = first_max w es # post" using s unfolding Nil by (simp only: append_Nil)
      have "w = first_max w es \<and> es = post"
        using eq list.inject[of w es "first_max w es" post] by blast
      then have wm: "first_max w es = w" and ep: "es = post"
        by (rule conjunct1[THEN sym], rule conjunct2)
      have 1: "w # e # es = [] @ first_max w es # (e # post)"
        by (subst wm, subst ep[symmetric], simp)
      have 2: "\<forall>x\<in>set (e # post). sint (Timestamp x) \<le> sint (Timestamp (first_max w es))"
        using a False wm by fastforce
      have 3: "\<forall>x\<in>set ([] :: KeyValueEntry list).
                 sint (Timestamp x) < sint (Timestamp (first_max w es))"
        by simp
      show ?thesis unfolding fm using 1 2 3 by blast
    next
      case (Cons p pre')
      have eq: "w # es = p # (pre' @ first_max w es # post)"
        using s unfolding Cons by (simp only: append_Cons)
      have "w = p \<and> es = pre' @ first_max w es # post"
        using eq list.inject[of w es p "pre' @ first_max w es # post"] by blast
      then have pw: "p = w" and es: "es = pre' @ first_max w es # post"
        by (rule conjunct1[THEN sym], rule conjunct2)
      have wl: "sint (Timestamp w) < sint (Timestamp (first_max w es))"
        using b Cons pw by simp
      have "w # e # es = w # e # (pre' @ first_max w es # post)"
        using es by (rule arg_cong)
      then have 1: "w # e # es = (w # e # pre') @ first_max w es # post"
        by (simp only: append_Cons)
      have 2: "\<forall>x\<in>set (w # e # pre').
                 sint (Timestamp x) < sint (Timestamp (first_max w es))"
        using b Cons wl False by fastforce
      show ?thesis unfolding fm using 1 2 a by blast
    qed
  qed
qed

lemma Coordinator_Get_first_max:
  assumes "GetNodes (hashf net) (coord_ring c) key (ReplicationFactor (coord_config c))
           = Inr pref"
    and "readFromNodes net c st pref key = (responses, st')"
    and "getReadQuorum (coord_config c) consistency
         \<le> int (length (successfulResponses responses))"
    and "successfulResponses responses = x # xs"
  shows "Coordinator_Get net c st key consistency
         = (Inr (Value (first_max x xs), Timestamp (first_max x xs)), st',
            Some (pref, first_max x xs))"
  using assms
  by (simp add: Coordinator_Get_def Let_def)
     (subst sort_Slice_head, simp)

text \<open>
  Claim C4 as the code has it.  When the read collects at least the required number of
  found responses (and at least one; at most 12 nodes in the preference list, where
  \<open>sort.Slice\<close> is the insertion sort), \<open>Get\<close> returns the value and timestamp of a response
  with the greatest timestamp, starts the read repair with it, and among responses with
  that timestamp takes the one whose node comes first in the preference list: every
  response before the winner is strictly older, every response after it is not newer.
  The values are not compared.
\<close>

theorem coordinator_get_winner:
  assumes "GetNodes (hashf net) (coord_ring c) key (ReplicationFactor (coord_config c))
           = Inr pref"
    and "length pref \<le> 12"
    and "readFromNodes net c st pref key = (responses, st')"
    and "getReadQuorum (coord_config c) consistency
         \<le> int (length (successfulResponses responses))"
    and "successfulResponses responses \<noteq> []"
  shows "\<exists>w pre post.
           Coordinator_Get net c st key consistency
             = (Inr (Value w, Timestamp w), st', Some (pref, w))
           \<and> successfulResponses responses = pre @ w # post
           \<and> (\<forall>e\<in>set pre. sint (Timestamp e) < sint (Timestamp w))
           \<and> (\<forall>e\<in>set post. sint (Timestamp e) \<le> sint (Timestamp w))"
proof -
  from assms(5) obtain x xs where sx: "successfulResponses responses = x # xs"
    by (cases "successfulResponses responses") auto
  let ?w = "first_max x xs"
  have g: "Coordinator_Get net c st key consistency
             = (Inr (Value ?w, Timestamp ?w), st', Some (pref, ?w))"
    by (rule Coordinator_Get_first_max[OF assms(1,3,4) sx])
  from first_max_split[of x xs] obtain pre post where
    "x # xs = pre @ ?w # post"
    "\<forall>e\<in>set pre. sint (Timestamp e) < sint (Timestamp ?w)"
    "\<forall>e\<in>set post. sint (Timestamp e) \<le> sint (Timestamp ?w)"
    by blast
  then show ?thesis using g sx by auto
qed


lemma example_pref:
  "GetNodes (\<lambda>k. 5) example_ring key 3 = Inr [''n1'', ''n2'', ''n3'']"
proof -
  let ?vs = "vnodes example_ring"
  have s: "sorted_wrt (\<lambda>a b. Hash a \<le> Hash b) ?vs" by (simp add: example_ring_def)
  have "sort_Search (length ?vs) (\<lambda>i. Hash (?vs ! i) \<ge> 5) = 0"
    using sort_Search_takeWhile[OF s, of 5] by (simp add: example_ring_def)
  moreover have "GetNodes_loop ?vs 0 3 0 [] {} = [''n1'', ''n2'', ''n3'']"
    by (simp add: example_ring_def GetNodes_loop_new GetNodes_loop_stop)
  ultimately show ?thesis by (simp add: GetNodes_def Let_def example_ring_def)
qed

lemma empty_store_Get:
  "Bitcask_Get empty_store key = (Inl ErrKeyNotFound, empty_store\<lparr>totalReads := 1\<rparr>)"
  by (simp add: Bitcask_Get_def empty_store_def Index_Get_def NewIndex_def Let_def)

lemma decimal_8080: "decimal 8080 = ''8080''"
  by (simp add: decimal.simps[of 8080] decimal.simps[of 808] decimal.simps[of 80]
      decimal.simps[of 8])

lemma example_url:
  "read_url (example_node name) key
   = string_bytes (''http://'' @ name @ '':8080/internal/read?key='') @ key"
  by (simp add: read_url_def example_node_def format_int_def decimal_8080)

lemma example_url_n2:
  "read_url (example_node ''n2'') key_k
   = [0x68, 0x74, 0x74, 0x70, 0x3A, 0x2F, 0x2F, 0x6E, 0x32, 0x3A, 0x38, 0x30, 0x38, 0x30, 0x2F,
      0x69, 0x6E, 0x74, 0x65, 0x72, 0x6E, 0x61, 0x6C, 0x2F, 0x72, 0x65, 0x61, 0x64, 0x3F,
      0x6B, 0x65, 0x79, 0x3D, 0x6B]"
  by (simp add: example_url string_bytes_def key_k_def)

lemma example_url_n3:
  "read_url (example_node ''n3'') key_k
   = [0x68, 0x74, 0x74, 0x70, 0x3A, 0x2F, 0x2F, 0x6E, 0x33, 0x3A, 0x38, 0x30, 0x38, 0x30, 0x2F,
      0x69, 0x6E, 0x74, 0x65, 0x72, 0x6E, 0x61, 0x6C, 0x2F, 0x72, 0x65, 0x61, 0x64, 0x3F,
      0x6B, 0x65, 0x79, 0x3D, 0x6B]"
  by (simp add: example_url string_bytes_def key_k_def)

lemma example_url_accepted:
  "\<not> url_refused (read_url (example_node ''n2'') key_k)"
  "\<not> url_refused (read_url (example_node ''n3'') key_k)"
  by (simp_all add: example_url_n2 example_url_n3 url_refused_def stringContainsCTLByte_def)

text \<open>A key with a control byte makes a URL that is refused: the read of a peer fails
  whatever the peer holds.\<close>

lemma control_key_refused:
  "fetchFromNode net example_coordinator ''n2'' [1] = None"
  by (simp add: fetchFromNode_def example_coordinator_def example_url string_bytes_def
      url_refused_def stringContainsCTLByte_def)

lemma example_read:
  "readFromNodes (net_answers a2 a3) example_coordinator empty_store
     [''n1'', ''n2'', ''n3''] key_k
   = ([None, a2, a3], empty_store\<lparr>totalReads := 1\<rparr>)"
proof -
  have f2: "fetchFromNode (net_answers a2 a3) example_coordinator ''n2'' key_k = a2"
    using example_url_accepted
    by (simp add: fetchFromNode_def example_coordinator_def net_answers_def)
  have f3: "fetchFromNode (net_answers a2 a3) example_coordinator ''n3'' key_k = a3"
    using example_url_accepted
    by (simp add: fetchFromNode_def example_coordinator_def net_answers_def
        example_url_n2 example_url_n3)
  show ?thesis
    by (simp add: empty_store_Get f2 f3) (simp add: example_coordinator_def example_config_def)
qed

lemma example_Get:
  assumes "a2 = Some e2" "a3 = Some e3"
  shows "Coordinator_Get (net_answers a2 a3) example_coordinator empty_store key_k ''quorum''
   = (Inr (Value (first_max e2 [e3]), Timestamp (first_max e2 [e3])),
      empty_store\<lparr>totalReads := 1\<rparr>,
      Some ([''n1'', ''n2'', ''n3''], first_max e2 [e3]))"
proof -
  have p: "GetNodes (hashf (net_answers a2 a3)) (coord_ring example_coordinator) key_k
             (ReplicationFactor (coord_config example_coordinator))
           = Inr [''n1'', ''n2'', ''n3'']"
    using example_pref[of key_k]
    by (simp add: net_answers_def example_coordinator_def example_config_def)
  have q: "getReadQuorum (coord_config example_coordinator) ''quorum'' = 2"
    by (simp add: getReadQuorum_def example_coordinator_def example_config_def
        ConsistencyOne_def ConsistencyAll_def)
  have s: "successfulResponses [None, a2, a3] = [e2, e3]"
    using assms by (simp add: successfulResponses_def)
  show ?thesis
    by (rule Coordinator_Get_first_max[OF p example_read _ s]) (simp add: q s)
qed

text \<open>
  Claim C4 says that responses with the same greatest timestamp are ordered by their
  values.  On a read of the key \<open>"k"\<close>, with \<open>n2\<close> answering \<open>"b"\<close> and \<open>n3\<close> answering \<open>"a"\<close>, both
  at timestamp 5, the read returns \<open>"b"\<close>; with the two answers exchanged it returns \<open>"a"\<close>.
  The winner is the answer of the node that comes first in the preference list, in one
  case the greater value and in the other the smaller one.
\<close>

theorem get_tie_by_position:
  "fst (Coordinator_Get (net_answers (Some entry_b) (Some entry_a)) example_coordinator
          empty_store key_k ''quorum'') = Inr ([0x62], 5)
   \<and> fst (Coordinator_Get (net_answers (Some entry_a) (Some entry_b)) example_coordinator
          empty_store key_k ''quorum'') = Inr ([0x61], 5)"
  using example_Get[of "Some entry_b" entry_b "Some entry_a" entry_a]
        example_Get[of "Some entry_a" entry_a "Some entry_b" entry_b]
  by (simp add: entry_a_def entry_b_def)

theorem coordinator_get_winner_witness:
  "Coordinator_Get (net_answers (Some entry_b) (Some entry_a)) example_coordinator
     empty_store key_k ''quorum''
   = (Inr ([0x62], 5), empty_store\<lparr>totalReads := 1\<rparr>,
      Some ([''n1'', ''n2'', ''n3''], entry_b))"
proof -
  let ?net = "net_answers (Some entry_b) (Some entry_a)"
  have p: "GetNodes (hashf ?net) (coord_ring example_coordinator) key_k
             (ReplicationFactor (coord_config example_coordinator))
           = Inr [''n1'', ''n2'', ''n3'']"
    using example_pref[of key_k]
    by (simp add: net_answers_def example_coordinator_def example_config_def)
  have s: "successfulResponses [None, Some entry_b, Some entry_a] = [entry_b, entry_a]"
    by (simp add: successfulResponses_def)
  have q: "getReadQuorum (coord_config example_coordinator) ''quorum''
           \<le> int (length (successfulResponses [None, Some entry_b, Some entry_a]))"
    by (simp add: s getReadQuorum_def example_coordinator_def example_config_def
        ConsistencyOne_def ConsistencyAll_def)
  from coordinator_get_winner [OF p _ example_read q] s
  obtain w pre post where
    g: "Coordinator_Get ?net example_coordinator empty_store key_k ''quorum''
        = (Inr (Value w, Timestamp w), empty_store\<lparr>totalReads := 1\<rparr>,
           Some ([''n1'', ''n2'', ''n3''], w))"
    and sp: "[entry_b, entry_a] = pre @ w # post"
    and b: "\<forall>e\<in>set pre. sint (Timestamp e) < sint (Timestamp w)"
    by auto
  have "pre = []"
  proof (rule ccontr)
    assume "pre \<noteq> []"
    then obtain x pre' where pre: "pre = x # pre'" by (cases pre) auto
    with sp have x: "x = entry_b" and r: "[entry_a] = pre' @ w # post" by simp_all
    from r have "w = entry_a" by (cases pre') auto
    with b pre x show False by (simp add: entry_a_def entry_b_def)
  qed
  with sp have "w = entry_b" by simp
  with g show ?thesis by (simp add: entry_b_def)
qed

section \<open>The coordinator: read repair\<close>

lemma readRepair_sent:
  "snd (readRepair net c st pref latest)
   = map (\<lambda>n. (n, \<lparr>ReqEntry = latest, FromNode = NodeID (coord_config c),
                    IsHandoff = False\<rparr>))
       (filter (\<lambda>n. n \<noteq> NodeID (coord_config c) \<and> coord_nodes c n \<noteq> None) pref)"
proof (induction pref arbitrary: st)
  case Nil
  show ?case by simp
next
  case (Cons n pref)
  show ?case
  proof (cases "n = NodeID (coord_config c)")
    case True
    then show ?thesis using Cons.IH by (simp add: Let_def split_def)
  next
    case False
    then show ?thesis using Cons.IH[of st]
      by (cases "coord_nodes c n") (simp_all add: Let_def split_def sendReplication_def)
  qed
qed

lemma readRepair_store_remote:
  "NodeID (coord_config c) \<notin> set pref \<Longrightarrow> fst (readRepair net c st pref latest) = st"
proof (induction pref arbitrary: st)
  case Nil
  show ?case by simp
next
  case (Cons n pref)
  then have "n \<noteq> NodeID (coord_config c)" by auto
  then show ?case using Cons by (simp add: Let_def split_def)
qed

lemma readRepair_store_local:
  assumes "NodeID (coord_config c) \<notin> set pre" "NodeID (coord_config c) \<notin> set post"
  shows "fst (readRepair net c st (pre @ NodeID (coord_config c) # post) latest)
         = (if local_stale (fst (Bitcask_Get st (Key latest))) latest
            then snd (Bitcask_Put (snd (Bitcask_Get st (Key latest)))
                        (Key latest) (Value latest) (Timestamp latest))
            else snd (Bitcask_Get st (Key latest)))"
  using assms(1)
proof (induction pre)
  case Nil
  show ?case
    using readRepair_store_remote[OF assms(2)]
    by (cases "fst (Bitcask_Get st (Key latest))")
       (auto simp add: Let_def split_def local_stale_def)
next
  case (Cons n pre)
  then have "n \<noteq> NodeID (coord_config c)" by auto
  then show ?case using Cons by (simp add: Let_def split_def)
qed

text \<open>
  Claim C5 says that a peer that returned the winning timestamp and value is sent no
  repair write.  On a read of the key \<open>"k"\<close>, with \<open>n2\<close> and \<open>n3\<close> both answering the entry that
  wins the read, the read repair that \<open>Get\<close> starts sends a replication request with that
  entry to \<open>n2\<close> and to \<open>n3\<close>.
\<close>

theorem repair_sent_to_current_peers:
  "Coordinator_Get (net_answers (Some entry_b) (Some entry_b)) example_coordinator
     empty_store key_k ''quorum''
   = (Inr ([0x62], 5), empty_store\<lparr>totalReads := 1\<rparr>,
      Some ([''n1'', ''n2'', ''n3''], entry_b))
   \<and> snd (readRepair (net_answers (Some entry_b) (Some entry_b)) example_coordinator
            (empty_store\<lparr>totalReads := 1\<rparr>) [''n1'', ''n2'', ''n3''] entry_b)
     = [(''n2'', \<lparr>ReqEntry = entry_b, FromNode = ''n1'', IsHandoff = False\<rparr>),
        (''n3'', \<lparr>ReqEntry = entry_b, FromNode = ''n1'', IsHandoff = False\<rparr>)]"
proof -
  have g: "Coordinator_Get (net_answers (Some entry_b) (Some entry_b)) example_coordinator
     empty_store key_k ''quorum''
   = (Inr ([0x62], 5), empty_store\<lparr>totalReads := 1\<rparr>,
      Some ([''n1'', ''n2'', ''n3''], entry_b))"
    using example_Get[of "Some entry_b" entry_b "Some entry_b" entry_b]
    by (simp add: entry_b_def)
  have r: "snd (readRepair (net_answers (Some entry_b) (Some entry_b)) example_coordinator
            (empty_store\<lparr>totalReads := 1\<rparr>) [''n1'', ''n2'', ''n3''] entry_b)
     = [(''n2'', \<lparr>ReqEntry = entry_b, FromNode = ''n1'', IsHandoff = False\<rparr>),
        (''n3'', \<lparr>ReqEntry = entry_b, FromNode = ''n1'', IsHandoff = False\<rparr>)]"
    by (subst readRepair_sent) (simp add: example_coordinator_def example_config_def)
  show ?thesis using g r by (rule conjI)
qed

text \<open>
  Claim C5 as the code has it.  The read repair sends a replication request carrying the
  winning entry, with its timestamp, to every registered peer of the preference list other
  than the node itself, whatever that peer returned.  The local copy is rewritten exactly
  when the local \<open>Get\<close> fails, returns an older timestamp, or returns the same timestamp with
  another value.
\<close>

theorem read_repair_writes:
  "snd (readRepair net c st pref latest)
   = map (\<lambda>n. (n, \<lparr>ReqEntry = latest, FromNode = NodeID (coord_config c),
                    IsHandoff = False\<rparr>))
       (filter (\<lambda>n. n \<noteq> NodeID (coord_config c) \<and> coord_nodes c n \<noteq> None) pref)
   \<and> (NodeID (coord_config c) \<notin> set pre \<and> NodeID (coord_config c) \<notin> set post \<longrightarrow>
        fst (readRepair net c st (pre @ NodeID (coord_config c) # post) latest)
        = (if local_stale (fst (Bitcask_Get st (Key latest))) latest
           then snd (Bitcask_Put (snd (Bitcask_Get st (Key latest)))
                       (Key latest) (Value latest) (Timestamp latest))
           else snd (Bitcask_Get st (Key latest))))"
  using readRepair_sent readRepair_store_local by blast

theorem read_repair_writes_witness:
  "snd (readRepair net_up example_coordinator empty_store [''n1'', ''n2'', ''n3''] entry_a)
   = [(''n2'', \<lparr>ReqEntry = entry_a, FromNode = ''n1'', IsHandoff = False\<rparr>),
      (''n3'', \<lparr>ReqEntry = entry_a, FromNode = ''n1'', IsHandoff = False\<rparr>)]
   \<and> fst (readRepair net_up example_coordinator empty_store ([] @ ''n1'' # [''n2'', ''n3''])
            entry_a)
     = snd (Bitcask_Put (empty_store\<lparr>totalReads := 1\<rparr>) key_k [0x61] 5)"
proof -
  have n: "NodeID (coord_config example_coordinator) = ''n1''"
    by (simp add: example_coordinator_def example_config_def)
  have "NodeID (coord_config example_coordinator) \<notin> set []
        \<and> NodeID (coord_config example_coordinator) \<notin> set [''n2'', ''n3'']"
    by (simp add: n)
  with read_repair_writes [of net_up example_coordinator empty_store
      "[''n1'', ''n2'', ''n3'']" entry_a "[]" "[''n2'', ''n3'']"]
  show ?thesis
    by (simp add: n empty_store_Get local_stale_def)
       (simp add: example_coordinator_def entry_a_def)
qed

section \<open>The coordinator: writes, deletes and hints\<close>

lemma empty_store_Put:
  "Bitcask_Put empty_store key val ts = (None, snd (Bitcask_Put empty_store key val ts))"
  using Bitcask_Put_open[of empty_store key val ts] by (simp add: empty_store_def)

lemma empty_store_Delete:
  "Bitcask_Delete empty_store key ts = (None, snd (Bitcask_Delete empty_store key ts))"
  using Bitcask_Delete_open[of empty_store key ts] by (simp add: empty_store_def)

lemma example_replicate:
  assumes "hashf net = (\<lambda>k. 5)"
  shows "replicateToNodes net example_coordinator empty_store [''n1'', ''n2'', ''n3''] entry
   = ([''n3'' \<mapsto> post_replicate net ''n3''
                    \<lparr>ReqEntry = entry, FromNode = ''n1'', IsHandoff = False\<rparr>,
       ''n2'' \<mapsto> post_replicate net ''n2''
                    \<lparr>ReqEntry = entry, FromNode = ''n1'', IsHandoff = False\<rparr>,
       ''n1'' \<mapsto> True],
      snd (Bitcask_Put empty_store (Key entry) (Value entry) (Timestamp entry)),
      [(''n2'', \<lparr>ReqEntry = entry, FromNode = ''n1'', IsHandoff = False\<rparr>),
       (''n3'', \<lparr>ReqEntry = entry, FromNode = ''n1'', IsHandoff = False\<rparr>)])"
proof -
  have l: "Bitcask_Put empty_store (Key entry) (Value entry) (Timestamp entry)
           = (None, snd (Bitcask_Put empty_store (Key entry) (Value entry) (Timestamp entry)))"
    by (rule empty_store_Put)
  show ?thesis
    apply (simp add: example_coordinator_def example_config_def sendReplication_def Let_def)
    apply (subst l)
    apply simp
    done
qed

lemma example_Coordinator_Put:
  assumes "hashf net = (\<lambda>k. 5)"
  shows "Coordinator_Put net example_coordinator empty_store now key val consistency
   = (let req = \<lparr>ReqEntry = \<lparr>Key = key, Value = val, Timestamp = now, IsDeleted = False\<rparr>,
                  FromNode = ''n1'', IsHandoff = False\<rparr>;
          successCount = 1 + (if post_replicate net ''n2'' req then 1 else 0)
                           + (if post_replicate net ''n3'' req then 1 else 0);
          requiredAcks = getWriteQuorum example_config consistency
      in (if successCount < requiredAcks
          then Some (ErrQuorumNotMet successCount requiredAcks) else None,
          snd (Bitcask_Put empty_store key val now),
          [(''n2'', req), (''n3'', req)]))"
proof -
  have p: "GetNodes (hashf net) (coord_ring example_coordinator) key
             (ReplicationFactor example_config)
           = Inr [''n1'', ''n2'', ''n3'']"
    using example_pref[of key] assms
    by (simp add: example_coordinator_def example_config_def)
  have c: "coord_config example_coordinator = example_config"
    by (simp add: example_coordinator_def)
  show ?thesis
    unfolding Coordinator_Put_def Let_def c p sum.case example_replicate[OF assms]
    by simp
qed

text \<open>
  Claim C1 says that the delete of a client is coordinated like a put.  On the node \<open>n1\<close> of
  the example cluster (replication factor 3, \<open>n2\<close> and \<open>n3\<close> reachable), a put at level
  \<open>all\<close> sends a replication request to \<open>n2\<close> and to \<open>n3\<close>; a delete of the same key answers
  200 after writing the tombstone to the local store only, and sends nothing.  No input
  makes \<open>handleDelete\<close> send a request.
\<close>

theorem delete_is_local_only:
  "handleDelete example_server net_up empty_store 7 [1]
   = (200, snd (Bitcask_Delete empty_store [1] 7), [])
   \<and> handlePut example_server net_up empty_store 7 [1] [2] ''all''
     = (200, snd (Bitcask_Put empty_store [1] [2] 7),
        [(''n2'', \<lparr>ReqEntry = \<lparr>Key = [1], Value = [2], Timestamp = 7, IsDeleted = False\<rparr>,
                   FromNode = ''n1'', IsHandoff = False\<rparr>),
         (''n3'', \<lparr>ReqEntry = \<lparr>Key = [1], Value = [2], Timestamp = 7, IsDeleted = False\<rparr>,
                   FromNode = ''n1'', IsHandoff = False\<rparr>)])
   \<and> snd (snd (handleDelete s net st now key)) = []"
proof -
  have d: "handleDelete example_server net_up empty_store 7 [1]
           = (200, snd (Bitcask_Delete empty_store [1] 7), [])"
    unfolding handleDelete_def by (subst empty_store_Delete) simp
  have h: "hashf net_up = (\<lambda>k. 5)" by (simp add: net_up_def)
  have p: "handlePut example_server net_up empty_store 7 [1] [2] ''all''
     = (200, snd (Bitcask_Put empty_store [1] [2] 7),
        [(''n2'', \<lparr>ReqEntry = \<lparr>Key = [1], Value = [2], Timestamp = 7, IsDeleted = False\<rparr>,
                   FromNode = ''n1'', IsHandoff = False\<rparr>),
         (''n3'', \<lparr>ReqEntry = \<lparr>Key = [1], Value = [2], Timestamp = 7, IsDeleted = False\<rparr>,
                   FromNode = ''n1'', IsHandoff = False\<rparr>)])"
  proof -
    have cp: "Coordinator_Put net_up example_coordinator empty_store 7 [1] [2] ''all''
      = (None, snd (Bitcask_Put empty_store [1] [2] 7),
        [(''n2'', \<lparr>ReqEntry = \<lparr>Key = [1], Value = [2], Timestamp = 7, IsDeleted = False\<rparr>,
                   FromNode = ''n1'', IsHandoff = False\<rparr>),
         (''n3'', \<lparr>ReqEntry = \<lparr>Key = [1], Value = [2], Timestamp = 7, IsDeleted = False\<rparr>,
                   FromNode = ''n1'', IsHandoff = False\<rparr>)])"
      by (subst example_Coordinator_Put[OF h])
         (simp add: net_up_def getWriteQuorum_def example_config_def ConsistencyOne_def
            ConsistencyAll_def Let_def)
    show ?thesis unfolding handlePut_def by (simp add: example_server_def cp)
  qed
  have n: "snd (snd (handleDelete s net st now key)) = []"
    by (simp add: handleDelete_def split: prod.splits option.splits)
  show ?thesis using d p n by blast
qed

text \<open>
  Claim C2 says that a write that fails to reach its target leaves a hint for that target.
  On the node \<open>n1\<close> of the example cluster with \<open>n2\<close> unreachable, a put at level \<open>one\<close>
  succeeds and a put at level \<open>all\<close> fails (2 acknowledgements of 3); in both cases the
  request to \<open>n2\<close> was sent and failed, and the hinted handoff store of the node holds no
  hint for \<open>n2\<close> afterwards: \<open>Coordinator.Put\<close> has no access to the store.
\<close>

theorem failed_write_leaves_no_hint:
  "fst (node_put example_process net_n2_down 7 [1] [2] ''one'') = 200
   \<and> fst (node_put example_process net_n2_down 7 [1] [2] ''all'') = 500
   \<and> snd (snd (node_put example_process net_n2_down 7 [1] [2] ''one''))
     = [(''n2'', \<lparr>ReqEntry = \<lparr>Key = [1], Value = [2], Timestamp = 7, IsDeleted = False\<rparr>,
                   FromNode = ''n1'', IsHandoff = False\<rparr>),
        (''n3'', \<lparr>ReqEntry = \<lparr>Key = [1], Value = [2], Timestamp = 7, IsDeleted = False\<rparr>,
                   FromNode = ''n1'', IsHandoff = False\<rparr>)]
   \<and> \<not> post_replicate net_n2_down ''n2''
          \<lparr>ReqEntry = \<lparr>Key = [1], Value = [2], Timestamp = 7, IsDeleted = False\<rparr>,
           FromNode = ''n1'', IsHandoff = False\<rparr>
   \<and> HintedHandoffStore_GetHints
        (proc_handoff (fst (snd (node_put example_process net_n2_down 7 [1] [2] ''one''))))
        ''n2'' = []
   \<and> HintedHandoffStore_GetHints
        (proc_handoff (fst (snd (node_put example_process net_n2_down 7 [1] [2] ''all''))))
        ''n2'' = []"
proof -
  have h: "hashf net_n2_down = (\<lambda>k. 5)" by (simp add: net_n2_down_def)
  have p: "handlePut example_server net_n2_down empty_store 7 [1] [2] cons
     = (if 2 < getWriteQuorum example_config (if cons = [] then ''quorum'' else cons)
        then 500 else 200,
        snd (Bitcask_Put empty_store [1] [2] 7),
        [(''n2'', \<lparr>ReqEntry = \<lparr>Key = [1], Value = [2], Timestamp = 7, IsDeleted = False\<rparr>,
                   FromNode = ''n1'', IsHandoff = False\<rparr>),
         (''n3'', \<lparr>ReqEntry = \<lparr>Key = [1], Value = [2], Timestamp = 7, IsDeleted = False\<rparr>,
                   FromNode = ''n1'', IsHandoff = False\<rparr>)])" for cons
  proof -
    have cp: "Coordinator_Put net_n2_down example_coordinator empty_store 7 [1] [2] c'
      = (if 2 < getWriteQuorum example_config c'
         then Some (ErrQuorumNotMet 2 (getWriteQuorum example_config c')) else None,
         snd (Bitcask_Put empty_store [1] [2] 7),
        [(''n2'', \<lparr>ReqEntry = \<lparr>Key = [1], Value = [2], Timestamp = 7, IsDeleted = False\<rparr>,
                   FromNode = ''n1'', IsHandoff = False\<rparr>),
         (''n3'', \<lparr>ReqEntry = \<lparr>Key = [1], Value = [2], Timestamp = 7, IsDeleted = False\<rparr>,
                   FromNode = ''n1'', IsHandoff = False\<rparr>)])" for c'
      by (subst example_Coordinator_Put[OF h]) (simp add: net_n2_down_def Let_def)
    show ?thesis unfolding handlePut_def by (simp add: example_server_def cp)
  qed
  have q: "getWriteQuorum example_config ''one'' = 1" "getWriteQuorum example_config ''all'' = 3"
    by (simp_all add: getWriteQuorum_def example_config_def ConsistencyOne_def
        ConsistencyAll_def)
  have f: "\<not> post_replicate net_n2_down ''n2''
          \<lparr>ReqEntry = \<lparr>Key = [1], Value = [2], Timestamp = 7, IsDeleted = False\<rparr>,
           FromNode = ''n1'', IsHandoff = False\<rparr>"
    by (simp add: net_n2_down_def)
  have np: "node_put example_process net_n2_down 7 [1] [2] cons
     = (if 2 < getWriteQuorum example_config (if cons = [] then ''quorum'' else cons)
        then 500 else 200,
        example_process\<lparr>proc_store := snd (Bitcask_Put empty_store [1] [2] 7)\<rparr>,
        [(''n2'', \<lparr>ReqEntry = \<lparr>Key = [1], Value = [2], Timestamp = 7, IsDeleted = False\<rparr>,
                   FromNode = ''n1'', IsHandoff = False\<rparr>),
         (''n3'', \<lparr>ReqEntry = \<lparr>Key = [1], Value = [2], Timestamp = 7, IsDeleted = False\<rparr>,
                   FromNode = ''n1'', IsHandoff = False\<rparr>)])" for cons
    unfolding node_put_def
    by (subst (2) example_process_def, subst (2) example_process_def)
       (simp add: p)
  have g: "HintedHandoffStore_GetHints (proc_handoff example_process) ''n2'' = []"
    by (simp add: example_process_def HintedHandoffStore_GetHints_def
        NewHintedHandoffStore_def)
  show ?thesis using f by (simp add: np q g)
qed

end
